theory Spec2Isabelle
  imports Main "HOL-Library.Monad_Syntax" "HOL-Library.Sublist"
begin

section \<open>Data model of editor.c\<close>

text \<open>
  The embedding follows \<^verbatim>\<open>src/editor.c\<close>.  A C buffer together with its length field is a
  list: \<^verbatim>\<open>chars\<close>/\<^verbatim>\<open>size\<close> and \<^verbatim>\<open>render\<close>/\<^verbatim>\<open>rsize\<close> are the lists \<open>chars\<close> and \<open>render\<close>
  (the terminating NUL byte is not an element), and \<^verbatim>\<open>hl\<close> is the list of the bytes of its
  allocation.  C \<^verbatim>\<open>int\<close> values are \<open>int\<close>; no line of the editor comes near \<open>2^31\<close>, so
  wrap-around is not modelled.
\<close>

definition EDITOR_TAB_STOP :: int where
  "EDITOR_TAB_STOP = 2"

definition EDITOR_QUIT_TIMES :: int where
  "EDITOR_QUIT_TIMES = 3"

datatype editorHighlight =
  HL_NORMAL | HL_COMMENT | HL_MLCOMMENT | HL_KEYWORD1 | HL_KEYWORD2
  | HL_STRING | HL_NUMBER | HL_MATCH

record erow =
  idx :: int
  chars :: string
  render :: string
  hl :: "editorHighlight list"
  hl_open_comment :: bool

abbreviation size_of :: "erow \<Rightarrow> int" where
  "size_of r \<equiv> int (length (chars r))"

abbreviation rsize :: "erow \<Rightarrow> int" where
  "rsize r \<equiv> int (length (render r))"

text \<open>Reading byte \<open>j\<close> of a NUL-terminated buffer whose content is \<open>s\<close>: index \<open>length s\<close> is
  the terminator.  Callers guard against indices beyond it.\<close>

definition byte_at :: "string \<Rightarrow> int \<Rightarrow> char" where
  "byte_at s j = (if 0 \<le> j \<and> j < int (length s) then s ! nat j else CHR 0x00)"

section \<open>Row operations: raw column and display column\<close>

text \<open>One step of the loop body shared by \<^verbatim>\<open>editorRowCxToRx\<close> and \<^verbatim>\<open>editorRowRxToCx\<close>:
  \<^verbatim>\<open>if (c == '\t') rx += (EDITOR_TAB_STOP - 1) - (rx % EDITOR_TAB_STOP); rx++;\<close>
  The column is never negative, so C's \<^verbatim>\<open>%\<close> is \<open>mod\<close>.\<close>

definition tab_advance :: "char \<Rightarrow> int \<Rightarrow> int" where
  "tab_advance c rx =
     (if c = CHR 0x09 then rx + ((EDITOR_TAB_STOP - 1) - (rx mod EDITOR_TAB_STOP)) + 1
      else rx + 1)"

text \<open>\<^verbatim>\<open>for (j = 0; j < cx; j++)\<close> of \<^verbatim>\<open>editorRowCxToRx\<close>.  Reading \<^verbatim>\<open>chars[j]\<close> beyond the
  terminator leaves the buffer: the result is \<open>None\<close>.\<close>

function CxToRx_loop :: "string \<Rightarrow> int \<Rightarrow> int \<Rightarrow> int \<Rightarrow> int option" where
  "CxToRx_loop cs cx j rx =
     (if j < cx then
        (if j < 0 \<or> j > int (length cs) then None
         else CxToRx_loop cs cx (j + 1) (tab_advance (byte_at cs j) rx))
      else Some rx)"
  by pat_completeness auto
termination
  by (relation "measure (\<lambda>(cs, cx, j, rx). nat (cx - j))") auto

declare CxToRx_loop.simps [simp del]

definition editorRowCxToRx :: "erow \<Rightarrow> int \<Rightarrow> int option" where
  "editorRowCxToRx row cx = CxToRx_loop (chars row) cx 0 0"

text \<open>\<^verbatim>\<open>for (cx = 0; cx < row->size; cx++)\<close> of \<^verbatim>\<open>editorRowRxToCx\<close>.\<close>

function RxToCx_loop :: "string \<Rightarrow> int \<Rightarrow> int \<Rightarrow> int \<Rightarrow> int" where
  "RxToCx_loop cs rx cx cur_rx =
     (if 0 \<le> cx \<and> cx < int (length cs) then
        (let cur' = tab_advance (byte_at cs cx) cur_rx in
         if cur' > rx then cx else RxToCx_loop cs rx (cx + 1) cur')
      else cx)"
  by pat_completeness auto
termination
  by (relation "measure (\<lambda>(cs, rx, cx, cur). nat (int (length cs) - cx))") auto

declare RxToCx_loop.simps [simp del]

definition editorRowRxToCx :: "erow \<Rightarrow> int \<Rightarrow> int" where
  "editorRowRxToCx row rx = RxToCx_loop (chars row) rx 0 0"

section \<open>Syntax highlighting\<close>

text \<open>\<^verbatim>\<open>struct editorSyntax\<close>.  The three comment tokens are \<^verbatim>\<open>char *\<close> that may be \<^verbatim>\<open>NULL\<close>;
  \<^verbatim>\<open>flags\<close> is tested against \<^verbatim>\<open>HL_HIGHLIGHT_NUMBERS = 1<<0\<close> and
  \<^verbatim>\<open>HL_HIGHLIGHT_STRINGS = 1<<1\<close>.\<close>

record editorSyntax =
  filetype :: string
  filematch :: "string list"
  kw_list :: "string list"
  singleline_comment_start :: "string option"
  multiline_comment_start :: "string option"
  multiline_comment_end :: "string option"
  flags :: nat

definition HL_HIGHLIGHT_NUMBERS :: nat where
  "HL_HIGHLIGHT_NUMBERS = 1"

definition HL_HIGHLIGHT_STRINGS :: nat where
  "HL_HIGHLIGHT_STRINGS = 2"

text \<open>\<^verbatim>\<open>flags & HL_HIGHLIGHT_NUMBERS\<close> and \<^verbatim>\<open>flags & HL_HIGHLIGHT_STRINGS\<close>: bit 0 and bit 1.\<close>

definition highlight_numbers :: "editorSyntax \<Rightarrow> bool" where
  "highlight_numbers syn = (flags syn mod 2 = 1)"

definition highlight_strings :: "editorSyntax \<Rightarrow> bool" where
  "highlight_strings syn = ((flags syn div 2) mod 2 = 1)"

definition C_HL_extensions :: "string list" where
  "C_HL_extensions = [''.c'', ''.h'', ''.cpp'']"

definition C_HL_keywords :: "string list" where
  "C_HL_keywords =
     [''switch'', ''if'', ''while'', ''for'', ''break'', ''continue'', ''return'', ''else'',
      ''struct'', ''union'', ''typedef'', ''static'', ''enum'', ''class'', ''case'',
      ''int|'', ''long|'', ''double|'', ''float|'', ''char|'', ''unsigned|'', ''signed|'',
      ''void|'']"

text \<open>The only entry of \<^verbatim>\<open>HLDB\<close>.\<close>

definition HLDB_c :: editorSyntax where
  "HLDB_c = \<lparr> filetype = ''c'', filematch = C_HL_extensions, kw_list = C_HL_keywords,
     singleline_comment_start = Some ''//'', multiline_comment_start = Some ''/*'',
     multiline_comment_end = Some ''*/'',
     flags = HL_HIGHLIGHT_NUMBERS + HL_HIGHLIGHT_STRINGS \<rparr>"

definition HLDB :: "editorSyntax list" where
  "HLDB = [HLDB_c]"

text \<open>\<^verbatim>\<open>isspace\<close> and \<^verbatim>\<open>isdigit\<close> of the C locale.\<close>

definition isspace :: "char \<Rightarrow> bool" where
  "isspace c = (c \<in> set [CHR '' '', CHR 0x09, CHR 0x0A, CHR 0x0B, CHR 0x0C, CHR 0x0D])"

definition isdigit :: "char \<Rightarrow> bool" where
  "isdigit c = (c \<in> set ''0123456789'')"

definition is_separator :: "char \<Rightarrow> bool" where
  "is_separator c = (isspace c \<or> c = CHR 0x00 \<or> c \<in> set '',.()+-/*=~%<>[];'')"

text \<open>\<^verbatim>\<open>!strncmp(&row->render[i], tok, n)\<close> for a token \<open>tok\<close> without NUL bytes and
  \<open>n \<le> strlen tok\<close>: the \<open>n\<close> bytes of \<open>render\<close> from \<open>i\<close> on are the first \<open>n\<close> bytes of the token.
  The terminator of \<open>render\<close> differs from every token byte, so a match never runs past
  \<open>rsize\<close>.\<close>

definition strncmp_eq :: "string \<Rightarrow> nat \<Rightarrow> string \<Rightarrow> nat \<Rightarrow> bool" where
  "strncmp_eq rd i tok n = (take n (drop i rd) = take n tok)"

text \<open>\<^verbatim>\<open>memset(&hl[i], v, n)\<close>.  A write past the end of the allocation would show as a longer
  list.\<close>

definition memset_hl :: "editorHighlight list \<Rightarrow> nat \<Rightarrow> editorHighlight \<Rightarrow> nat \<Rightarrow> editorHighlight list" where
  "memset_hl h i v n = take i h @ replicate n v @ drop (i + n) h"

text \<open>\<^verbatim>\<open>strlen\<close> of an optional token: \<^verbatim>\<open>scs ? strlen(scs) : 0\<close>.\<close>

definition tok_len :: "string option \<Rightarrow> nat" where
  "tok_len t = (case t of None \<Rightarrow> 0 | Some s \<Rightarrow> length s)"

definition tok_str :: "string option \<Rightarrow> string" where
  "tok_str t = (case t of None \<Rightarrow> [] | Some s \<Rightarrow> s)"

text \<open>The keyword loop \<^verbatim>\<open>for (j = 0; keywords[j]; j++)\<close>: the first keyword, in declared
  order, that matches at \<open>i\<close> and is followed by a separator; the result is \<open>klen\<close> and \<open>kw2\<close>.
  (\<^verbatim>\<open>keywords[j][klen - 1]\<close> of an empty keyword would read before the string; the registry
  has none.)\<close>

fun find_keyword :: "string list \<Rightarrow> string \<Rightarrow> nat \<Rightarrow> (nat \<times> bool) option" where
  "find_keyword [] rd i = None"
| "find_keyword (kw # kws) rd i =
     (let kw2 = (kw \<noteq> [] \<and> last kw = CHR ''|'');
          klen = (if kw2 then length kw - 1 else length kw)
      in if strncmp_eq rd i kw klen \<and> is_separator (byte_at rd (int (i + klen)))
         then Some (klen, kw2)
         else find_keyword kws rd i)"

text \<open>One iteration of the \<^verbatim>\<open>while (i < row->rsize)\<close> loop of \<^verbatim>\<open>editorUpdateSyntax\<close>, entered
  with \<open>i < rsize\<close>.  \<open>in_string\<close> is the C \<^verbatim>\<open>int\<close> that is \<open>0\<close> or the opening quote.  The
  iteration either leaves the loop (\<^verbatim>\<open>break\<close>) or continues with new loop variables.\<close>

datatype scan_state =
  Break "editorHighlight list"
  | Continue nat bool char bool "editorHighlight list"

definition scan_step ::
  "editorSyntax \<Rightarrow> string \<Rightarrow> nat \<Rightarrow> bool \<Rightarrow> char \<Rightarrow> bool \<Rightarrow> editorHighlight list \<Rightarrow> scan_state" where
  "scan_step syn rd i prev_sep in_string in_comment h =
     (let c = rd ! i;
          prev_hl = (if i > 0 then h ! (i - 1) else HL_NORMAL);
          scs = tok_str (singleline_comment_start syn);
          mcs = tok_str (multiline_comment_start syn);
          mce = tok_str (multiline_comment_end syn);
          scs_len = tok_len (singleline_comment_start syn);
          mcs_len = tok_len (multiline_comment_start syn);
          mce_len = tok_len (multiline_comment_end syn)
      in
      if scs_len \<noteq> 0 \<and> in_string = CHR 0x00 \<and> \<not> in_comment \<and> strncmp_eq rd i scs scs_len
      then Break (memset_hl h i HL_COMMENT (length rd - i))
      else if mcs_len \<noteq> 0 \<and> mce_len \<noteq> 0 \<and> in_string = CHR 0x00 \<and> in_comment
      then (if strncmp_eq rd i mce mce_len
            then Continue (i + mce_len) True in_string False
                   (memset_hl (h[i := HL_MLCOMMENT]) i HL_MLCOMMENT mce_len)
            else Continue (i + 1) prev_sep in_string in_comment (h[i := HL_MLCOMMENT]))
      else if mcs_len \<noteq> 0 \<and> mce_len \<noteq> 0 \<and> in_string = CHR 0x00 \<and> strncmp_eq rd i mcs mcs_len
      then Continue (i + mcs_len) prev_sep in_string True (memset_hl h i HL_MLCOMMENT mcs_len)
      else if highlight_strings syn \<and> in_string \<noteq> CHR 0x00
      then (if c = CHR 0x5C \<and> i + 1 < length rd
            then Continue (i + 2) prev_sep in_string in_comment
                   ((h[i := HL_STRING])[i := HL_STRING])
            else Continue (i + 1) True (if c = in_string then CHR 0x00 else in_string) in_comment
                   (h[i := HL_STRING]))
      else if highlight_strings syn \<and> (c = CHR 0x22 \<or> c = CHR 0x27)
      then Continue (i + 1) prev_sep c in_comment (h[i := HL_STRING])
      else if highlight_numbers syn
              \<and> ((isdigit c \<and> (prev_sep \<or> prev_hl = HL_NUMBER))
                  \<or> (c = CHR ''.'' \<and> prev_hl = HL_NUMBER))
      then Continue (i + 1) False in_string in_comment (h[i := HL_NUMBER])
      else (case (if prev_sep then find_keyword (kw_list syn) rd i else None) of
              Some (klen, kw2) \<Rightarrow>
                Continue (i + klen) False in_string in_comment
                  (memset_hl h i (if kw2 then HL_KEYWORD2 else HL_KEYWORD1) klen)
            | None \<Rightarrow> Continue (i + 1) (is_separator c) in_string in_comment h))"

text \<open>The loop variable that decreases: every iteration advances \<open>i\<close>, except a keyword of
  length \<open>0\<close>, which clears \<open>prev_sep\<close>.\<close>

definition scan_measure :: "string \<Rightarrow> nat \<Rightarrow> bool \<Rightarrow> nat" where
  "scan_measure rd i prev_sep = 2 * (length rd - i) + (if prev_sep then 1 else 0)"

lemma scan_step_cases:
  fixes syn rd i ps ins inc h
  defines "blk \<equiv> tok_len (multiline_comment_start syn) \<noteq> 0 \<and> tok_len (multiline_comment_end syn) \<noteq> 0
                  \<and> ins = CHR 0x00"
  obtains
    (line_comment) "\<not> inc"
      "scan_step syn rd i ps ins inc h = Break (memset_hl h i HL_COMMENT (length rd - i))"
  | (comment_end) "blk" "inc"
      "strncmp_eq rd i (tok_str (multiline_comment_end syn)) (tok_len (multiline_comment_end syn))"
      "scan_step syn rd i ps ins inc h
         = Continue (i + tok_len (multiline_comment_end syn)) True ins False
             (memset_hl (h[i := HL_MLCOMMENT]) i HL_MLCOMMENT (tok_len (multiline_comment_end syn)))"
  | (comment_body) "blk" "inc"
      "\<not> strncmp_eq rd i (tok_str (multiline_comment_end syn)) (tok_len (multiline_comment_end syn))"
      "scan_step syn rd i ps ins inc h = Continue (i + 1) ps ins inc (h[i := HL_MLCOMMENT])"
  | (comment_start) "blk" "\<not> inc"
      "strncmp_eq rd i (tok_str (multiline_comment_start syn)) (tok_len (multiline_comment_start syn))"
      "scan_step syn rd i ps ins inc h
         = Continue (i + tok_len (multiline_comment_start syn)) ps ins True
             (memset_hl h i HL_MLCOMMENT (tok_len (multiline_comment_start syn)))"
  | (string_escape) "\<not> (blk \<and> inc)" "ins \<noteq> CHR 0x00" "i + 1 < length rd"
      "scan_step syn rd i ps ins inc h = Continue (i + 2) ps ins inc (h[i := HL_STRING])"
  | (string_body) "\<not> (blk \<and> inc)" "ins \<noteq> CHR 0x00"
      "scan_step syn rd i ps ins inc h
         = Continue (i + 1) True (if rd ! i = ins then CHR 0x00 else ins) inc (h[i := HL_STRING])"
  | (string_open) "\<not> (blk \<and> inc)"
      "scan_step syn rd i ps ins inc h = Continue (i + 1) ps (rd ! i) inc (h[i := HL_STRING])"
  | (number) "\<not> (blk \<and> inc)"
      "scan_step syn rd i ps ins inc h = Continue (i + 1) False ins inc (h[i := HL_NUMBER])"
  | (keyword) klen kw2 where "\<not> (blk \<and> inc)" "ps"
      "find_keyword (kw_list syn) rd i = Some (klen, kw2)"
      "scan_step syn rd i ps ins inc h
         = Continue (i + klen) False ins inc
             (memset_hl h i (if kw2 then HL_KEYWORD2 else HL_KEYWORD1) klen)"
  | (normal) "\<not> (blk \<and> inc)"
      "scan_step syn rd i ps ins inc h = Continue (i + 1) (is_separator (rd ! i)) ins inc h"
proof -
  let ?G1 = "tok_len (singleline_comment_start syn) \<noteq> 0 \<and> ins = CHR 0x00 \<and> \<not> inc
      \<and> strncmp_eq rd i (tok_str (singleline_comment_start syn))
            (tok_len (singleline_comment_start syn))"
  let ?E = "strncmp_eq rd i (tok_str (multiline_comment_end syn)) (tok_len (multiline_comment_end syn))"
  let ?G2 = "tok_len (multiline_comment_start syn) \<noteq> 0 \<and> tok_len (multiline_comment_end syn) \<noteq> 0
      \<and> ins = CHR 0x00 \<and> inc"
  let ?G3 = "tok_len (multiline_comment_start syn) \<noteq> 0 \<and> tok_len (multiline_comment_end syn) \<noteq> 0
      \<and> ins = CHR 0x00
      \<and> strncmp_eq rd i (tok_str (multiline_comment_start syn))
            (tok_len (multiline_comment_start syn))"
  let ?G4 = "highlight_strings syn \<and> ins \<noteq> CHR 0x00"
  let ?B = "rd ! i = CHR 0x5C \<and> i + 1 < length rd"
  let ?G5 = "highlight_strings syn \<and> (rd ! i = CHR 0x22 \<or> rd ! i = CHR 0x27)"
  let ?G6 = "highlight_numbers syn
      \<and> ((isdigit (rd ! i) \<and> (ps \<or> (if i > 0 then h ! (i - 1) else HL_NORMAL) = HL_NUMBER))
          \<or> (rd ! i = CHR ''.'' \<and> (if i > 0 then h ! (i - 1) else HL_NORMAL) = HL_NUMBER))"
  let ?K = "if ps then find_keyword (kw_list syn) rd i else None"
  note rules = if_P if_not_P option.case prod.case
  show thesis
  proof (cases ?G1)
    case True
    have "scan_step syn rd i ps ins inc h = Break (memset_hl h i HL_COMMENT (length rd - i))"
      unfolding scan_step_def Let_def by (simp only: if_P [OF True])
    then show thesis using True line_comment by blast
  next
    case n1: False
    show thesis
    proof (cases ?G2)
      case g2: True
      then have b: "blk" "inc" by (simp_all add: blk_def)
      show thesis
      proof (cases ?E)
        case e: True
        have "scan_step syn rd i ps ins inc h
            = Continue (i + tok_len (multiline_comment_end syn)) True ins False
               (memset_hl (h[i := HL_MLCOMMENT]) i HL_MLCOMMENT (tok_len (multiline_comment_end syn)))"
          unfolding scan_step_def Let_def
          by (simp only: if_not_P [OF n1] if_P [OF g2] if_P [OF e])
        then show thesis using b e comment_end by blast
      next
        case e: False
        have "scan_step syn rd i ps ins inc h = Continue (i + 1) ps ins inc (h[i := HL_MLCOMMENT])"
          unfolding scan_step_def Let_def
          by (simp only: if_not_P [OF n1] if_P [OF g2] if_not_P [OF e])
        then show thesis using b e comment_body by blast
      qed
    next
      case n2: False
      then have nb: "\<not> (blk \<and> inc)" by (simp add: blk_def)
      show thesis
      proof (cases ?G3)
        case g3: True
        then have b: "blk" "\<not> inc" using n2 by (auto simp: blk_def)
        have "scan_step syn rd i ps ins inc h
            = Continue (i + tok_len (multiline_comment_start syn)) ps ins True
               (memset_hl h i HL_MLCOMMENT (tok_len (multiline_comment_start syn)))"
          unfolding scan_step_def Let_def
          by (simp only: if_not_P [OF n1] if_not_P [OF n2] if_P [OF g3])
        then show thesis using b g3 comment_start by blast
      next
        case n3: False
        show thesis
        proof (cases ?G4)
          case g4: True
          show thesis
          proof (cases ?B)
            case bs: True
            have "scan_step syn rd i ps ins inc h
                = Continue (i + 2) ps ins inc ((h[i := HL_STRING])[i := HL_STRING])"
              unfolding scan_step_def Let_def
              by (simp only: if_not_P [OF n1] if_not_P [OF n2] if_not_P [OF n3] if_P [OF g4]
                    if_P [OF bs])
            then have "scan_step syn rd i ps ins inc h = Continue (i + 2) ps ins inc (h[i := HL_STRING])"
              by simp
            then show thesis using nb g4 bs string_escape by blast
          next
            case bs: False
            have "scan_step syn rd i ps ins inc h
                = Continue (i + 1) True (if rd ! i = ins then CHR 0x00 else ins) inc (h[i := HL_STRING])"
              unfolding scan_step_def Let_def
              by (simp only: if_not_P [OF n1] if_not_P [OF n2] if_not_P [OF n3] if_P [OF g4]
                    if_not_P [OF bs])
            then show thesis using nb g4 string_body by blast
          qed
        next
          case n4: False
          show thesis
          proof (cases ?G5)
            case g5: True
            have "scan_step syn rd i ps ins inc h = Continue (i + 1) ps (rd ! i) inc (h[i := HL_STRING])"
              unfolding scan_step_def Let_def
              by (simp only: if_not_P [OF n1] if_not_P [OF n2] if_not_P [OF n3] if_not_P [OF n4]
                    if_P [OF g5])
            then show thesis using nb string_open by blast
          next
            case n5: False
            show thesis
            proof (cases ?G6)
              case g6: True
              have "scan_step syn rd i ps ins inc h = Continue (i + 1) False ins inc (h[i := HL_NUMBER])"
                unfolding scan_step_def Let_def
                by (simp only: if_not_P [OF n1] if_not_P [OF n2] if_not_P [OF n3] if_not_P [OF n4]
                      if_not_P [OF n5] if_P [OF g6])
              then show thesis using nb number by blast
            next
              case n6: False
              show thesis
              proof (cases ?K)
                case None
                have "scan_step syn rd i ps ins inc h
                    = Continue (i + 1) (is_separator (rd ! i)) ins inc h"
                  unfolding scan_step_def Let_def
                  by (simp only: if_not_P [OF n1] if_not_P [OF n2] if_not_P [OF n3] if_not_P [OF n4]
                        if_not_P [OF n5] if_not_P [OF n6] None option.case)
                then show thesis using nb normal by blast
              next
                case (Some kk)
                obtain klen kw2 where kk: "?K = Some (klen, kw2)" using Some by (cases kk) simp
                have ps: "ps" and fk: "find_keyword (kw_list syn) rd i = Some (klen, kw2)"
                  using kk by (simp_all split: if_split_asm)
                have "scan_step syn rd i ps ins inc h
                    = Continue (i + klen) False ins inc
                        (memset_hl h i (if kw2 then HL_KEYWORD2 else HL_KEYWORD1) klen)"
                  unfolding scan_step_def Let_def
                  by (simp only: if_not_P [OF n1] if_not_P [OF n2] if_not_P [OF n3] if_not_P [OF n4]
                        if_not_P [OF n5] if_not_P [OF n6] kk option.case prod.case)
                then show thesis using nb ps fk keyword by blast
              qed
            qed
          qed
        qed
      qed
    qed
  qed
qed

lemma scan_step_progress:
  assumes "scan_step syn rd i prev_sep in_string in_comment h = Continue i' ps' is' ic' h'"
  shows "i < i' \<or> (i' = i \<and> prev_sep \<and> \<not> ps')"
  using assms
  by (cases rule: scan_step_cases [of in_comment syn rd i prev_sep in_string h]) auto

lemma scan_step_decreases:
  assumes "i < length rd"
    and "scan_step syn rd i prev_sep in_string in_comment h = Continue i' ps' is' ic' h'"
  shows "scan_measure rd i' ps' < scan_measure rd i prev_sep"
  using scan_step_progress [OF assms(2)] assms(1)
  by (auto simp: scan_measure_def)

function scan_row ::
  "editorSyntax \<Rightarrow> string \<Rightarrow> nat \<Rightarrow> bool \<Rightarrow> char \<Rightarrow> bool \<Rightarrow> editorHighlight list
     \<Rightarrow> editorHighlight list \<times> bool" where
  "scan_row syn rd i prev_sep in_string in_comment h =
     (if \<not> i < length rd then (h, in_comment)
      else (case scan_step syn rd i prev_sep in_string in_comment h of
              Break h' \<Rightarrow> (h', in_comment)
            | Continue i' ps' is' ic' h' \<Rightarrow> scan_row syn rd i' ps' is' ic' h'))"
  by pat_completeness auto
termination
proof (relation "measure (\<lambda>(syn, rd, i, prev_sep, in_string, in_comment, h).
                   scan_measure rd i prev_sep)")
  show "wf (measure (\<lambda>(syn, rd, i, prev_sep, in_string, in_comment, h).
                   scan_measure rd i prev_sep))"
    by simp
next
  fix syn rd i prev_sep in_string in_comment h i' ps' is' ic' h'
  assume "\<not> \<not> i < length rd"
    and "scan_step syn rd i prev_sep in_string in_comment h = Continue i' ps' is' ic' h'"
  then show "((syn, rd, i', ps', is', ic', h'), (syn, rd, i, prev_sep, in_string, in_comment, h))
      \<in> measure (\<lambda>(syn, rd, i, prev_sep, in_string, in_comment, h). scan_measure rd i prev_sep)"
    using scan_step_decreases by simp
qed

declare scan_row.simps [simp del]

section \<open>Editor state and row store\<close>

text \<open>\<^verbatim>\<open>struct editorConfig\<close> without the status message and the terminal settings.  \<open>row\<close> is
  the allocated array \<^verbatim>\<open>E.row\<close>: its length is the number of slots of the allocation, of which
  the first \<open>numrows\<close> are the document.\<close>

record editorConfig =
  cx :: int
  cy :: int
  rx :: int
  rowoff :: int
  coloff :: int
  screenrows :: int
  screencols :: int
  numrows :: int
  row :: "erow list"
  dirty :: int
  filename :: "string option"
  editorMode :: int
  cur_syntax :: "editorSyntax option"

text \<open>An operation either runs to its end, or it touches slot \<open>j\<close> outside the allocated row
  array (undefined behaviour in C): \<open>OutOfBounds j s\<close>, with the state \<open>s\<close> reached just before
  that access.\<close>

datatype 'a outcome = Ok 'a | OutOfBounds int 'a

fun state_of :: "'a outcome \<Rightarrow> 'a" where
  "state_of (Ok s) = s"
| "state_of (OutOfBounds j s) = s"

fun fault_of :: "'a outcome \<Rightarrow> int option" where
  "fault_of (Ok s) = None"
| "fault_of (OutOfBounds j s) = Some j"

fun and_then :: "'a outcome option \<Rightarrow> ('a \<Rightarrow> 'a outcome option) \<Rightarrow> 'a outcome option" where
  "and_then None f = None"
| "and_then (Some (Ok s)) f = f s"
| "and_then (Some (OutOfBounds j s)) f = Some (OutOfBounds j s)"

text \<open>\<^verbatim>\<open>editorUpdateSyntax(erow *row)\<close>, where \<open>p\<close> is the slot \<^verbatim>\<open>row\<close> points to (a slot of the
  allocation).  The function calls itself on \<^verbatim>\<open>&E.row[row->idx + 1]\<close>; a run that never
  returns is \<open>None\<close>.  Beside the outcome the result counts the calls made, the depth of the
  recursion.\<close>

partial_function (option) editorUpdateSyntax ::
  "nat \<Rightarrow> editorConfig \<Rightarrow> (nat \<times> editorConfig outcome) option" where
  "editorUpdateSyntax p E =
     (let r = row E ! p;
          h0 = replicate (length (render r)) HL_NORMAL;
          E0 = E\<lparr>row := (row E)[p := r\<lparr>hl := h0\<rparr>]\<rparr>
      in case cur_syntax E of
           None \<Rightarrow> Some (1, Ok E0)
         | Some syn \<Rightarrow>
             if idx r > 0 \<and> \<not> idx r - 1 < int (length (row E))
             then Some (1, OutOfBounds (idx r - 1) E0)
             else
               let in_comment0 = (idx r > 0 \<and> hl_open_comment (row E0 ! nat (idx r - 1)));
                   res = scan_row syn (render r) 0 True (CHR 0x00) in_comment0 h0;
                   changed = (hl_open_comment r \<noteq> snd res);
                   E1 = E\<lparr>row := (row E)[p := r\<lparr>hl := fst res, hl_open_comment := snd res\<rparr>]\<rparr>
               in if changed \<and> idx r + 1 < numrows E
                  then (if idx r + 1 < 0 \<or> \<not> idx r + 1 < int (length (row E))
                        then Some (1, OutOfBounds (idx r + 1) E1)
                        else Option.bind (editorUpdateSyntax (nat (idx r + 1)) E1)
                               (\<lambda>(n, out). Some (Suc n, out)))
                  else Some (1, Ok E1))"

declare editorUpdateSyntax.simps [code]

text \<open>The second loop of \<^verbatim>\<open>editorUpdateRow\<close>: a tab becomes a space and further spaces up to
  the next multiple of \<^verbatim>\<open>EDITOR_TAB_STOP\<close>; \<open>acc\<close> is \<^verbatim>\<open>render[0..idx)\<close>.\<close>

fun expand_tabs :: "string \<Rightarrow> string \<Rightarrow> string" where
  "expand_tabs acc [] = acc"
| "expand_tabs acc (c # cs) =
     (if c = CHR 0x09
      then expand_tabs
             (acc @ CHR '' '' #
                replicate (nat ((- int (length acc + 1)) mod EDITOR_TAB_STOP)) (CHR '' ''))
             cs
      else expand_tabs (acc @ [c]) cs)"

definition editorUpdateRow :: "nat \<Rightarrow> editorConfig \<Rightarrow> editorConfig outcome option" where
  "editorUpdateRow p E =
     map_option snd
       (editorUpdateSyntax p
          (E\<lparr>row := (row E)[p := (row E ! p)\<lparr>render := expand_tabs [] (chars (row E ! p))\<rparr>]\<rparr>))"

text \<open>\<^verbatim>\<open>for (int j = at + 1; j <= E.numrows; j++) E.row[j].idx++;\<close>, the loop that both
  \<^verbatim>\<open>editorInsertRow\<close> and \<^verbatim>\<open>editorDelRow\<close> run; \<open>js\<close> is the list of the values of \<open>j\<close>.\<close>

fun bump_idx :: "erow list \<Rightarrow> nat list \<Rightarrow> erow list outcome" where
  "bump_idx arr [] = Ok arr"
| "bump_idx arr (j # js) =
     (if j < length arr
      then bump_idx (arr[j := (arr ! j)\<lparr>idx := idx (arr ! j) + 1\<rparr>]) js
      else OutOfBounds (int j) arr)"

text \<open>A slot that \<^verbatim>\<open>realloc\<close> adds; every field is written before it is read.\<close>

definition fresh_slot :: erow where
  "fresh_slot = \<lparr>idx = 0, chars = [], render = [], hl = [], hl_open_comment = False\<rparr>"

definition realloc_rows :: "erow list \<Rightarrow> nat \<Rightarrow> erow list" where
  "realloc_rows arr n = take n arr @ replicate (n - length arr) fresh_slot"

text \<open>\<^verbatim>\<open>memmove(&arr[dst], &arr[src], n * sizeof(erow))\<close> inside the allocation.\<close>

definition memmove_rows :: "erow list \<Rightarrow> nat \<Rightarrow> nat \<Rightarrow> nat \<Rightarrow> erow list" where
  "memmove_rows arr dst src n = take dst arr @ take n (drop src arr) @ drop (dst + n) arr"

definition editorInsertRow :: "int \<Rightarrow> string \<Rightarrow> editorConfig \<Rightarrow> editorConfig outcome option" where
  "editorInsertRow at s E =
     (if at < 0 \<or> at > numrows E then Some (Ok E)
      else
        let n = nat (numrows E);
            a = nat at;
            arr = memmove_rows (realloc_rows (row E) (n + 1)) (a + 1) a (n - a)
        in case bump_idx arr [a + 1 ..< n + 1] of
             OutOfBounds j arr' \<Rightarrow> Some (OutOfBounds j (E\<lparr>row := arr'\<rparr>))
           | Ok arr' \<Rightarrow>
               and_then
                 (editorUpdateRow a
                    (E\<lparr>row := arr'[a := \<lparr>idx = at, chars = s, render = [], hl = [],
                                          hl_open_comment = False\<rparr>]\<rparr>))
                 (\<lambda>E'. Some (Ok (E'\<lparr>numrows := numrows E' + 1, dirty := dirty E' + 1\<rparr>))))"

text \<open>\<^verbatim>\<open>editorDelRow\<close>.  \<^verbatim>\<open>editorFreeRow\<close> releases the buffers of slot \<open>at\<close>, which the
  \<^verbatim>\<open>memmove\<close> then overwrites (or which leaves the document when \<open>at\<close> is the last row).\<close>

definition editorDelRow :: "int \<Rightarrow> editorConfig \<Rightarrow> editorConfig outcome option" where
  "editorDelRow at E =
     (if at < 0 \<or> at \<ge> numrows E then Some (Ok E)
      else
        let n = nat (numrows E);
            a = nat at;
            arr = memmove_rows (row E) a (a + 1) (n - a - 1)
        in case bump_idx arr [a + 1 ..< n + 1] of
             OutOfBounds j arr' \<Rightarrow> Some (OutOfBounds j (E\<lparr>row := arr'\<rparr>))
           | Ok arr' \<Rightarrow>
               Some (Ok (E\<lparr>row := arr', numrows := numrows E - 1, dirty := dirty E + 1\<rparr>)))"

section \<open>Row and editor operations\<close>

text \<open>\<^verbatim>\<open>&E.row[j]\<close> for a \<open>j\<close> that the source does not check: outside the allocation the
  operation stops with \<open>OutOfBounds j\<close>.\<close>

definition at_slot ::
  "int \<Rightarrow> editorConfig \<Rightarrow> (nat \<Rightarrow> editorConfig outcome option) \<Rightarrow> editorConfig outcome option" where
  "at_slot j E f =
     (if 0 \<le> j \<and> j < int (length (row E)) then f (nat j) else Some (OutOfBounds j E))"

definition editorRowInsertChar ::
  "nat \<Rightarrow> int \<Rightarrow> char \<Rightarrow> editorConfig \<Rightarrow> editorConfig outcome option" where
  "editorRowInsertChar p at c E =
     (let r = row E ! p;
          a = (if at < 0 \<or> at > size_of r then length (chars r) else nat at)
      in and_then
           (editorUpdateRow p
              (E\<lparr>row := (row E)[p := r\<lparr>chars := take a (chars r) @ c # drop a (chars r)\<rparr>]\<rparr>))
           (\<lambda>E'. Some (Ok (E'\<lparr>dirty := dirty E' + 1\<rparr>))))"

definition editorRowAppendString ::
  "nat \<Rightarrow> string \<Rightarrow> editorConfig \<Rightarrow> editorConfig outcome option" where
  "editorRowAppendString p s E =
     and_then
       (editorUpdateRow p (E\<lparr>row := (row E)[p := (row E ! p)\<lparr>chars := chars (row E ! p) @ s\<rparr>]\<rparr>))
       (\<lambda>E'. Some (Ok (E'\<lparr>dirty := dirty E' + 1\<rparr>)))"

definition editorRowDelChar :: "nat \<Rightarrow> int \<Rightarrow> editorConfig \<Rightarrow> editorConfig outcome option" where
  "editorRowDelChar p at E =
     (let r = row E ! p
      in if at < 0 \<or> at \<ge> size_of r then Some (Ok E)
         else and_then
                (editorUpdateRow p
                   (E\<lparr>row := (row E)[p := r\<lparr>chars := take (nat at) (chars r)
                                                    @ drop (nat at + 1) (chars r)\<rparr>]\<rparr>))
                (\<lambda>E'. Some (Ok (E'\<lparr>dirty := dirty E' + 1\<rparr>))))"

definition editorInsertChar :: "char \<Rightarrow> editorConfig \<Rightarrow> editorConfig outcome option" where
  "editorInsertChar c E =
     and_then (if cy E = numrows E then editorInsertRow (numrows E) [] E else Some (Ok E))
       (\<lambda>E1. and_then (at_slot (cy E1) E1 (\<lambda>p. editorRowInsertChar p (cx E1) c E1))
          (\<lambda>E2. Some (Ok (E2\<lparr>cx := cx E2 + 1\<rparr>))))"

definition editorInsertNewline :: "editorConfig \<Rightarrow> editorConfig outcome option" where
  "editorInsertNewline E =
     and_then
       (if cx E = 0 then editorInsertRow (cy E) [] E
        else at_slot (cy E) E (\<lambda>p.
               and_then (editorInsertRow (cy E + 1) (drop (nat (cx E)) (chars (row E ! p))) E)
                 (\<lambda>E1. at_slot (cy E1) E1 (\<lambda>q.
                    editorUpdateRow q
                      (E1\<lparr>row := (row E1)[q := (row E1 ! q)\<lparr>chars :=
                                take (nat (cx E1)) (chars (row E1 ! q))\<rparr>]\<rparr>)))))
       (\<lambda>E2. Some (Ok (E2\<lparr>cy := cy E2 + 1, cx := 0\<rparr>)))"

definition editorDelChar :: "editorConfig \<Rightarrow> editorConfig outcome option" where
  "editorDelChar E =
     (if cy E = numrows E then Some (Ok E)
      else if cx E = 0 \<and> cy E = 0 then Some (Ok E)
      else at_slot (cy E) E (\<lambda>p.
        if cx E > 0
        then and_then (editorRowDelChar p (cx E - 1) E) (\<lambda>E1. Some (Ok (E1\<lparr>cx := cx E1 - 1\<rparr>)))
        else at_slot (cy E - 1) E (\<lambda>q.
               and_then
                 (editorRowAppendString q (chars (row E ! p)) (E\<lparr>cx := size_of (row E ! q)\<rparr>))
                 (\<lambda>E1. and_then (editorDelRow (cy E1) E1)
                    (\<lambda>E2. Some (Ok (E2\<lparr>cy := cy E2 - 1\<rparr>)))))))"

text \<open>\<^verbatim>\<open>for (filerow = 0; filerow < E.numrows; filerow++) editorUpdateSyntax(&E.row[filerow]);\<close>\<close>

fun update_all_rows :: "nat list \<Rightarrow> editorConfig \<Rightarrow> editorConfig outcome option" where
  "update_all_rows [] E = Some (Ok E)"
| "update_all_rows (j # js) E =
     and_then (at_slot (int j) E (\<lambda>p. map_option snd (editorUpdateSyntax p E)))
       (update_all_rows js)"

text \<open>\<^verbatim>\<open>strrchr(E.filename, '.')\<close>: the part of the name from its last dot on.\<close>

fun strrchr_dot :: "string \<Rightarrow> string option" where
  "strrchr_dot [] = None"
| "strrchr_dot (c # cs) =
     (case strrchr_dot cs of
        Some e \<Rightarrow> Some e
      | None \<Rightarrow> if c = CHR ''.'' then Some (c # cs) else None)"

text \<open>A C string ends at its first NUL byte.\<close>

definition c_str :: "string \<Rightarrow> string" where
  "c_str s = takeWhile (\<lambda>c. c \<noteq> CHR 0x00) s"

text \<open>\<^verbatim>\<open>strstr(hay, needle)\<close> on buffer contents already cut at the terminator: the offset of
  the first occurrence.\<close>

fun strstr_from :: "string \<Rightarrow> string \<Rightarrow> nat \<Rightarrow> nat option" where
  "strstr_from [] needle k = (if needle = [] then Some k else None)"
| "strstr_from (c # cs) needle k =
     (if take (length needle) (c # cs) = needle then Some k else strstr_from cs needle (Suc k))"

definition strstr :: "string \<Rightarrow> string \<Rightarrow> nat option" where
  "strstr hay needle = strstr_from (c_str hay) (c_str needle) 0"

text \<open>The test of one \<^verbatim>\<open>filematch\<close> pattern in \<^verbatim>\<open>editorSelectSyntaxHighlight\<close>.\<close>

definition pattern_matches :: "string \<Rightarrow> string \<Rightarrow> bool" where
  "pattern_matches fname pat =
     (let is_ext = (byte_at pat 0 = CHR ''.'')
      in (is_ext \<and> strrchr_dot fname = Some pat) \<or> (\<not> is_ext \<and> strstr fname pat \<noteq> None))"

fun select_syntax :: "editorSyntax list \<Rightarrow> string \<Rightarrow> editorSyntax option" where
  "select_syntax [] fname = None"
| "select_syntax (s # ss) fname =
     (if \<exists>pat \<in> set (filematch s). pattern_matches fname pat then Some s
      else select_syntax ss fname)"

definition editorSelectSyntaxHighlight :: "editorConfig \<Rightarrow> editorConfig outcome option" where
  "editorSelectSyntaxHighlight E =
     (case filename E of
        None \<Rightarrow> Some (Ok (E\<lparr>cur_syntax := None\<rparr>))
      | Some fname \<Rightarrow>
          (case select_syntax HLDB fname of
             None \<Rightarrow> Some (Ok (E\<lparr>cur_syntax := None\<rparr>))
           | Some s \<Rightarrow> update_all_rows [0 ..< nat (numrows E)] (E\<lparr>cur_syntax := Some s\<rparr>)))"

text \<open>\<^verbatim>\<open>editorOpen\<close>, given the lines that \<^verbatim>\<open>getline\<close> returns: each loses its trailing
  \<^verbatim>\<open>\n\<close> and \<^verbatim>\<open>\r\<close> bytes and is appended as a row.\<close>

definition strip_eol :: "string \<Rightarrow> string" where
  "strip_eol l = rev (dropWhile (\<lambda>c. c = CHR 0x0A \<or> c = CHR 0x0D) (rev l))"

fun append_lines :: "string list \<Rightarrow> editorConfig \<Rightarrow> editorConfig outcome option" where
  "append_lines [] E = Some (Ok E)"
| "append_lines (l # ls) E =
     and_then (editorInsertRow (numrows E) (strip_eol l) E) (append_lines ls)"

definition editorOpen :: "string \<Rightarrow> string list \<Rightarrow> editorConfig \<Rightarrow> editorConfig outcome option" where
  "editorOpen fname ls E =
     and_then (editorSelectSyntaxHighlight (E\<lparr>filename := Some fname\<rparr>))
       (\<lambda>E1. and_then (append_lines ls E1) (\<lambda>E2. Some (Ok (E2\<lparr>dirty := 0\<rparr>))))"

text \<open>\<^verbatim>\<open>initEditor\<close> for a window of the given size.\<close>

definition initEditor :: "int \<Rightarrow> int \<Rightarrow> editorConfig" where
  "initEditor rows cols =
     \<lparr>cx = 0, cy = 0, rx = 0, rowoff = 0, coloff = 0, screenrows = rows - 2, screencols = cols,
      numrows = 0, row = [], dirty = 0, filename = None, editorMode = 0, cur_syntax = None\<rparr>"

section \<open>Incremental search, scrolling and the quit key\<close>

text \<open>The values of \<^verbatim>\<open>enum editorKey\<close> and of the control keys the claims need.\<close>

definition ARROW_LEFT :: int where "ARROW_LEFT = 1000"
definition ARROW_RIGHT :: int where "ARROW_RIGHT = 1001"
definition ARROW_UP :: int where "ARROW_UP = 1002"
definition ARROW_DOWN :: int where "ARROW_DOWN = 1003"
definition KEY_ENTER :: int where "KEY_ENTER = 13"
definition KEY_ESC :: int where "KEY_ESC = 27"
definition CTRL_Q :: int where "CTRL_Q = 17"

text \<open>The \<^verbatim>\<open>static\<close> variables of \<^verbatim>\<open>editorFindCallback\<close>; \<open>saved_hl = None\<close> is the \<^verbatim>\<open>NULL\<close>
  pointer.\<close>

record find_state =
  last_match :: int
  direction :: int
  saved_hl_line :: int
  saved_hl :: "editorHighlight list option"

definition find_init :: find_state where
  "find_init = \<lparr>last_match = -1, direction = 1, saved_hl_line = 0, saved_hl = None\<rparr>"

text \<open>\<^verbatim>\<open>memcpy(dst, src, n)\<close> on highlight buffers.\<close>

definition memcpy_hl :: "editorHighlight list \<Rightarrow> editorHighlight list \<Rightarrow> nat \<Rightarrow> editorHighlight list" where
  "memcpy_hl dst src n = take n src @ drop n dst"

text \<open>The \<^verbatim>\<open>for (i = 0; i < E.numrows; i++)\<close> loop of \<^verbatim>\<open>editorFindCallback\<close>, with \<open>k\<close>
  iterations left.  The result lists the rows examined, in order, and ends with the row and
  offset of the match, if any.\<close>

datatype find_result = NoMatch | Match int nat | BadRow int

text \<open>\<^verbatim>\<open>if (current == -1) current = E.numrows - 1; else if (current == E.numrows) current = 0;\<close>\<close>

definition find_wrap :: "int \<Rightarrow> int \<Rightarrow> int" where
  "find_wrap n c = (if c = -1 then n - 1 else if c = n then 0 else c)"

fun find_loop ::
  "string \<Rightarrow> editorConfig \<Rightarrow> int \<Rightarrow> int \<Rightarrow> nat \<Rightarrow> int list \<times> find_result" where
  "find_loop query E dir current 0 = ([], NoMatch)"
| "find_loop query E dir current (Suc k) =
     (let c2 = find_wrap (numrows E) (current + dir)
      in if c2 < 0 \<or> \<not> c2 < int (length (row E)) then ([], BadRow c2)
         else (case strstr (render (row E ! nat c2)) query of
                 Some off \<Rightarrow> ([c2], Match c2 off)
               | None \<Rightarrow>
                   (let res = find_loop query E dir c2 k in (c2 # fst res, snd res))))"

text \<open>The first statement of \<^verbatim>\<open>editorFindCallback\<close>:
  \<^verbatim>\<open>if (saved_hl) { memcpy(E.row[saved_hl_line].hl, saved_hl, E.row[saved_hl_line].rsize); ... }\<close>\<close>

definition restore_saved_hl ::
  "find_state \<times> editorConfig \<Rightarrow> (find_state \<times> editorConfig) outcome" where
  "restore_saved_hl FE =
     (let F = fst FE; E = snd FE in
      case saved_hl F of
        None \<Rightarrow> Ok (F, E)
      | Some sv \<Rightarrow>
          if saved_hl_line F < 0 \<or> \<not> saved_hl_line F < int (length (row E))
          then OutOfBounds (saved_hl_line F) (F, E)
          else
            let l = nat (saved_hl_line F); r = row E ! l
            in Ok (F\<lparr>saved_hl := None\<rparr>,
                   E\<lparr>row := (row E)[l := r\<lparr>hl := memcpy_hl (hl r) sv (length (render r))\<rparr>]\<rparr>))"

text \<open>The key tests for a key other than Enter and Escape, and the statement
  \<^verbatim>\<open>if (last_match == -1) direction = 1;\<close> that follows them.\<close>

definition find_key_update :: "int \<Rightarrow> find_state \<Rightarrow> find_state" where
  "find_key_update key F =
     (let F2 = (if key = ARROW_RIGHT \<or> key = ARROW_DOWN then F\<lparr>direction := 1\<rparr>
                else if key = ARROW_LEFT \<or> key = ARROW_UP then F\<lparr>direction := -1\<rparr>
                else F\<lparr>last_match := -1, direction := 1\<rparr>)
      in if last_match F2 = -1 then F2\<lparr>direction := 1\<rparr> else F2)"

definition editorFindCallback ::
  "string \<Rightarrow> int \<Rightarrow> find_state \<times> editorConfig \<Rightarrow> (find_state \<times> editorConfig) outcome" where
  "editorFindCallback query key FE =
     (case restore_saved_hl FE of
        OutOfBounds j s \<Rightarrow> OutOfBounds j s
      | Ok (F1, E1) \<Rightarrow>
          if key = KEY_ENTER \<or> key = KEY_ESC
          then Ok (F1\<lparr>last_match := -1, direction := 1\<rparr>, E1)
          else
            let F3 = find_key_update key F1
            in case snd (find_loop query E1 (direction F3) (last_match F3) (nat (numrows E1))) of
                 NoMatch \<Rightarrow> Ok (F3, E1)
               | BadRow j \<Rightarrow> OutOfBounds j (F3, E1)
               | Match current off \<Rightarrow>
                   (let r = row E1 ! nat current
                    in Ok (F3\<lparr>last_match := current, saved_hl_line := current,
                              saved_hl := Some (take (length (render r)) (hl r))\<rparr>,
                           E1\<lparr>cy := current, cx := editorRowRxToCx r (int off),
                                rowoff := numrows E1,
                                row := (row E1)[nat current :=
                                  r\<lparr>hl := memset_hl (hl r) off HL_MATCH (length (c_str query))\<rparr>]\<rparr>)))"

text \<open>The row array once the highlight row saved by the previous call is copied back (the
  array itself when nothing is saved).\<close>

definition restored_rows :: "find_state \<Rightarrow> editorConfig \<Rightarrow> erow list" where
  "restored_rows F E =
     (case saved_hl F of
        None \<Rightarrow> row E
      | Some sv \<Rightarrow>
          (row E)[nat (saved_hl_line F) :=
             (row E ! nat (saved_hl_line F))
               \<lparr>hl := memcpy_hl (hl (row E ! nat (saved_hl_line F))) sv
                        (length (render (row E ! nat (saved_hl_line F))))\<rparr>])"

text \<open>The order in which a full scan from \<open>current\<close> in direction \<open>dir\<close> is expected to examine
  the \<open>n\<close> rows: \<open>current + dir\<close>, \<open>current + 2 dir\<close>, ... taken modulo \<open>n\<close>.\<close>

definition cyclic_order :: "int \<Rightarrow> int \<Rightarrow> int \<Rightarrow> nat \<Rightarrow> int list" where
  "cyclic_order n current dir k = map (\<lambda>i. (current + dir * (int i + 1)) mod n) [0 ..< k]"

text \<open>\<^verbatim>\<open>editorScroll\<close>, statement by statement.\<close>

definition editorScroll :: "editorConfig \<Rightarrow> editorConfig" where
  "editorScroll E =
     (let E1 = E\<lparr>rx := cx E\<rparr>;
          E2 = (if cy E1 < rowoff E1 then E1\<lparr>rowoff := cy E1\<rparr> else E1);
          E3 = (if cy E2 \<ge> rowoff E2 + screenrows E2
                then E2\<lparr>rowoff := cy E2 - screenrows E2 + 1\<rparr> else E2);
          E4 = (if rx E3 < coloff E3 then E3\<lparr>coloff := rx E3\<rparr> else E3)
      in if rx E4 \<ge> coloff E4 + screencols E4
         then E4\<lparr>coloff := rx E4 - screencols E4 + 1\<rparr> else E4)"

text \<open>The quit logic of \<^verbatim>\<open>editorProcessKeypress\<close>.  \<open>quit_times\<close> is its \<^verbatim>\<open>static\<close> counter.
  Every other \<^verbatim>\<open>case\<close> of the \<^verbatim>\<open>switch\<close> falls through to the last statement, which resets the
  counter; what such a key does to the editor state is the parameter \<open>dispatch\<close>.\<close>

datatype keypress_result =
  Exit
  | Warned int editorConfig
  | Handled int editorConfig

definition editorProcessKeypress ::
  "(int \<Rightarrow> editorConfig \<Rightarrow> editorConfig) \<Rightarrow> int \<Rightarrow> int \<Rightarrow> editorConfig \<Rightarrow> keypress_result" where
  "editorProcessKeypress dispatch c quit_times E =
     (if c = CTRL_Q
      then (if dirty E \<noteq> 0 \<and> quit_times > 0 then Warned (quit_times - 1) E else Exit)
      else Handled EDITOR_QUIT_TIMES (dispatch c E))"

text \<open>The main loop on a list of keys: the counter after each key, or \<open>None\<close> once the
  editor has exited.\<close>

fun run_keys ::
  "(int \<Rightarrow> editorConfig \<Rightarrow> editorConfig) \<Rightarrow> int list \<Rightarrow> int \<Rightarrow> editorConfig
     \<Rightarrow> (int \<times> editorConfig) option" where
  "run_keys dispatch [] q E = Some (q, E)"
| "run_keys dispatch (c # cs) q E =
     (case editorProcessKeypress dispatch c q E of
        Exit \<Rightarrow> None
      | Warned q' E' \<Rightarrow> run_keys dispatch cs q' E'
      | Handled q' E' \<Rightarrow> run_keys dispatch cs q' E')"

section \<open>Row indices and re-highlighting, as functions of the row array\<close>

text \<open>The state invariant of the row store: the allocation holds the document, and every slot
  carries its own position in \<open>idx\<close>.\<close>

definition idx_ok :: "editorConfig \<Rightarrow> bool" where
  "idx_ok E =
     (0 \<le> numrows E \<and> nat (numrows E) \<le> length (row E)
      \<and> map idx (row E) = map int [0 ..< length (row E)])"

text \<open>The weaker property that the recursion of \<^verbatim>\<open>editorUpdateSyntax\<close> relies on: no slot carries
  an index below its position.\<close>

definition idx_ge_pos :: "editorConfig \<Rightarrow> bool" where
  "idx_ge_pos E = list_all (\<lambda>(j, r). int j \<le> idx r) (zip [0 ..< length (row E)] (row E))"




text \<open>What re-highlighting must leave alone in a row, and the length invariant of a row's
  highlight array.\<close>

definition text_of :: "erow \<Rightarrow> int \<times> string \<times> string" where
  "text_of r = (idx r, chars r, render r)"

definition same_text :: "editorConfig \<Rightarrow> editorConfig \<Rightarrow> bool" where
  "same_text E E' = (E' = E\<lparr>row := row E'\<rparr> \<and> map text_of (row E') = map text_of (row E))"

definition hl_ok_at :: "erow \<Rightarrow> bool" where
  "hl_ok_at r = (length (hl r) = length (render r))"

definition hl_ok :: "editorConfig \<Rightarrow> bool" where
  "hl_ok E = list_all hl_ok_at (row E)"

text \<open>The invariant of the row store that every operation maintains.\<close>

definition store_inv :: "editorConfig \<Rightarrow> bool" where
  "store_inv E =
     (0 \<le> numrows E \<and> nat (numrows E) \<le> length (row E) \<and> idx_ge_pos E \<and> hl_ok E)"

text \<open>The invariant of the search session: a saved highlight row belongs to an allocated slot
  and has the length of that row's display text.\<close>

definition saved_ok :: "find_state \<Rightarrow> editorConfig \<Rightarrow> bool" where
  "saved_ok F E =
     (case saved_hl F of
        None \<Rightarrow> True
      | Some sv \<Rightarrow>
          0 \<le> saved_hl_line F \<and> saved_hl_line F < int (length (row E))
          \<and> length sv = length (render (row E ! nat (saved_hl_line F))))"

section \<open>The operations when the program runs on past a stray access\<close>

text \<open>C leaves open what happens when the index loop of \<^verbatim>\<open>editorDelRow\<close> writes to slot
  \<open>numrows\<close>, outside the row array, and when \<^verbatim>\<open>editorUpdateSyntax\<close> reads the open-comment flag
  of a slot outside it.  Where the program runs on, the write changes no slot of the array and
  the read returns what the memory there holds.  The definitions of this section are the
  operations under that reading; \<open>stray j\<close> is the flag read from slot \<open>j\<close> outside the
  allocation.  A row pointer outside the array remains an \<open>OutOfBounds\<close> outcome.\<close>

text \<open>\<^verbatim>\<open>for (int j = at + 1; j <= E.numrows; j++) E.row[j].idx++;\<close>\<close>

fun bump_idx_cont :: "erow list \<Rightarrow> nat list \<Rightarrow> erow list" where
  "bump_idx_cont arr [] = arr"
| "bump_idx_cont arr (j # js) =
     bump_idx_cont (if j < length arr then arr[j := (arr ! j)\<lparr>idx := idx (arr ! j) + 1\<rparr>] else arr) js"

partial_function (option) editorUpdateSyntax_cont ::
  "(int \<Rightarrow> bool) \<Rightarrow> nat \<Rightarrow> editorConfig \<Rightarrow> editorConfig outcome option" where
  "editorUpdateSyntax_cont stray p E =
     (let r = row E ! p;
          h0 = replicate (length (render r)) HL_NORMAL;
          E0 = E\<lparr>row := (row E)[p := r\<lparr>hl := h0\<rparr>]\<rparr>
      in case cur_syntax E of
           None \<Rightarrow> Some (Ok E0)
         | Some syn \<Rightarrow>
             let in_comment0 =
                   (idx r > 0
                    \<and> (if idx r - 1 < int (length (row E))
                        then hl_open_comment (row E0 ! nat (idx r - 1))
                        else stray (idx r - 1)));
                 res = scan_row syn (render r) 0 True (CHR 0x00) in_comment0 h0;
                 changed = (hl_open_comment r \<noteq> snd res);
                 E1 = E\<lparr>row := (row E)[p := r\<lparr>hl := fst res, hl_open_comment := snd res\<rparr>]\<rparr>
             in if changed \<and> idx r + 1 < numrows E
                then (if idx r + 1 < 0 \<or> \<not> idx r + 1 < int (length (row E))
                      then Some (OutOfBounds (idx r + 1) E1)
                      else editorUpdateSyntax_cont stray (nat (idx r + 1)) E1)
                else Some (Ok E1))"

declare editorUpdateSyntax_cont.simps [code]

definition editorUpdateRow_cont ::
  "(int \<Rightarrow> bool) \<Rightarrow> nat \<Rightarrow> editorConfig \<Rightarrow> editorConfig outcome option" where
  "editorUpdateRow_cont stray p E =
     editorUpdateSyntax_cont stray p
       (E\<lparr>row := (row E)[p := (row E ! p)\<lparr>render := expand_tabs [] (chars (row E ! p))\<rparr>]\<rparr>)"

definition editorInsertRow_cont ::
  "(int \<Rightarrow> bool) \<Rightarrow> int \<Rightarrow> string \<Rightarrow> editorConfig \<Rightarrow> editorConfig outcome option" where
  "editorInsertRow_cont stray at s E =
     (if at < 0 \<or> at > numrows E then Some (Ok E)
      else
        let n = nat (numrows E);
            a = nat at;
            arr = memmove_rows (realloc_rows (row E) (n + 1)) (a + 1) a (n - a);
            arr' = bump_idx_cont arr [a + 1 ..< n + 1]
        in and_then
             (editorUpdateRow_cont stray a
                (E\<lparr>row := arr'[a := \<lparr>idx = at, chars = s, render = [], hl = [],
                                      hl_open_comment = False\<rparr>]\<rparr>))
             (\<lambda>E'. Some (Ok (E'\<lparr>numrows := numrows E' + 1, dirty := dirty E' + 1\<rparr>))))"

definition editorDelRow_cont :: "int \<Rightarrow> editorConfig \<Rightarrow> editorConfig outcome option" where
  "editorDelRow_cont at E =
     (if at < 0 \<or> at \<ge> numrows E then Some (Ok E)
      else
        let n = nat (numrows E);
            a = nat at;
            arr = memmove_rows (row E) a (a + 1) (n - a - 1);
            arr' = bump_idx_cont arr [a + 1 ..< n + 1]
        in Some (Ok (E\<lparr>row := arr', numrows := numrows E - 1, dirty := dirty E + 1\<rparr>)))"

definition editorRowInsertChar_cont ::
  "(int \<Rightarrow> bool) \<Rightarrow> nat \<Rightarrow> int \<Rightarrow> char \<Rightarrow> editorConfig \<Rightarrow> editorConfig outcome option" where
  "editorRowInsertChar_cont stray p at c E =
     (let r = row E ! p;
          a = (if at < 0 \<or> at > size_of r then length (chars r) else nat at)
      in and_then
           (editorUpdateRow_cont stray p
              (E\<lparr>row := (row E)[p := r\<lparr>chars := take a (chars r) @ c # drop a (chars r)\<rparr>]\<rparr>))
           (\<lambda>E'. Some (Ok (E'\<lparr>dirty := dirty E' + 1\<rparr>))))"

definition editorRowAppendString_cont ::
  "(int \<Rightarrow> bool) \<Rightarrow> nat \<Rightarrow> string \<Rightarrow> editorConfig \<Rightarrow> editorConfig outcome option" where
  "editorRowAppendString_cont stray p s E =
     and_then
       (editorUpdateRow_cont stray p
          (E\<lparr>row := (row E)[p := (row E ! p)\<lparr>chars := chars (row E ! p) @ s\<rparr>]\<rparr>))
       (\<lambda>E'. Some (Ok (E'\<lparr>dirty := dirty E' + 1\<rparr>)))"

definition editorRowDelChar_cont ::
  "(int \<Rightarrow> bool) \<Rightarrow> nat \<Rightarrow> int \<Rightarrow> editorConfig \<Rightarrow> editorConfig outcome option" where
  "editorRowDelChar_cont stray p at E =
     (let r = row E ! p
      in if at < 0 \<or> at \<ge> size_of r then Some (Ok E)
         else and_then
                (editorUpdateRow_cont stray p
                   (E\<lparr>row := (row E)[p := r\<lparr>chars := take (nat at) (chars r)
                                                    @ drop (nat at + 1) (chars r)\<rparr>]\<rparr>))
                (\<lambda>E'. Some (Ok (E'\<lparr>dirty := dirty E' + 1\<rparr>))))"

definition editorInsertChar_cont ::
  "(int \<Rightarrow> bool) \<Rightarrow> char \<Rightarrow> editorConfig \<Rightarrow> editorConfig outcome option" where
  "editorInsertChar_cont stray c E =
     and_then
       (if cy E = numrows E then editorInsertRow_cont stray (numrows E) [] E else Some (Ok E))
       (\<lambda>E1. and_then
                (at_slot (cy E1) E1 (\<lambda>p. editorRowInsertChar_cont stray p (cx E1) c E1))
                (\<lambda>E2. Some (Ok (E2\<lparr>cx := cx E2 + 1\<rparr>))))"

definition editorInsertNewline_cont ::
  "(int \<Rightarrow> bool) \<Rightarrow> editorConfig \<Rightarrow> editorConfig outcome option" where
  "editorInsertNewline_cont stray E =
     and_then
       (if cx E = 0 then editorInsertRow_cont stray (cy E) [] E
        else at_slot (cy E) E (\<lambda>p.
               and_then
                 (editorInsertRow_cont stray (cy E + 1) (drop (nat (cx E)) (chars (row E ! p))) E)
                 (\<lambda>E1. at_slot (cy E1) E1 (\<lambda>q.
                    editorUpdateRow_cont stray q
                      (E1\<lparr>row := (row E1)[q := (row E1 ! q)\<lparr>chars :=
                                take (nat (cx E1)) (chars (row E1 ! q))\<rparr>]\<rparr>)))))
       (\<lambda>E2. Some (Ok (E2\<lparr>cy := cy E2 + 1, cx := 0\<rparr>)))"

definition editorDelChar_cont ::
  "(int \<Rightarrow> bool) \<Rightarrow> editorConfig \<Rightarrow> editorConfig outcome option" where
  "editorDelChar_cont stray E =
     (if cy E = numrows E then Some (Ok E)
      else if cx E = 0 \<and> cy E = 0 then Some (Ok E)
      else at_slot (cy E) E (\<lambda>p.
        if cx E > 0
        then and_then (editorRowDelChar_cont stray p (cx E - 1) E)
               (\<lambda>E1. Some (Ok (E1\<lparr>cx := cx E1 - 1\<rparr>)))
        else at_slot (cy E - 1) E (\<lambda>q.
               and_then
                 (editorRowAppendString_cont stray q (chars (row E ! p))
                    (E\<lparr>cx := size_of (row E ! q)\<rparr>))
                 (\<lambda>E1. and_then (editorDelRow_cont (cy E1) E1)
                    (\<lambda>E2. Some (Ok (E2\<lparr>cy := cy E2 - 1\<rparr>)))))))"

fun update_all_rows_cont ::
  "(int \<Rightarrow> bool) \<Rightarrow> nat list \<Rightarrow> editorConfig \<Rightarrow> editorConfig outcome option" where
  "update_all_rows_cont stray [] E = Some (Ok E)"
| "update_all_rows_cont stray (j # js) E =
     and_then (at_slot (int j) E (\<lambda>p. editorUpdateSyntax_cont stray p E))
       (update_all_rows_cont stray js)"

definition editorSelectSyntaxHighlight_cont ::
  "(int \<Rightarrow> bool) \<Rightarrow> editorConfig \<Rightarrow> editorConfig outcome option" where
  "editorSelectSyntaxHighlight_cont stray E =
     (case filename E of
        None \<Rightarrow> Some (Ok (E\<lparr>cur_syntax := None\<rparr>))
      | Some fname \<Rightarrow>
          (case select_syntax HLDB fname of
             None \<Rightarrow> Some (Ok (E\<lparr>cur_syntax := None\<rparr>))
           | Some s \<Rightarrow>
               update_all_rows_cont stray [0 ..< nat (numrows E)] (E\<lparr>cur_syntax := Some s\<rparr>)))"

fun append_lines_cont ::
  "(int \<Rightarrow> bool) \<Rightarrow> string list \<Rightarrow> editorConfig \<Rightarrow> editorConfig outcome option" where
  "append_lines_cont stray [] E = Some (Ok E)"
| "append_lines_cont stray (l # ls) E =
     and_then (editorInsertRow_cont stray (numrows E) (strip_eol l) E) (append_lines_cont stray ls)"

definition editorOpen_cont ::
  "(int \<Rightarrow> bool) \<Rightarrow> string \<Rightarrow> string list \<Rightarrow> editorConfig \<Rightarrow> editorConfig outcome option" where
  "editorOpen_cont stray fname ls E =
     and_then (editorSelectSyntaxHighlight_cont stray (E\<lparr>filename := Some fname\<rparr>))
       (\<lambda>E1. and_then (append_lines_cont stray ls E1) (\<lambda>E2. Some (Ok (E2\<lparr>dirty := 0\<rparr>))))"

text \<open>The cursor invariant of the spec, as far as the row accesses of the editor operations
  need it: the cursor is on a row or on the line after the last row, and there in column \<open>0\<close>.\<close>

definition cur_ok :: "editorConfig \<Rightarrow> bool" where
  "cur_ok E = (0 \<le> cx E \<and> 0 \<le> cy E \<and> cy E \<le> numrows E \<and> (cy E = numrows E \<longrightarrow> cx E = 0))"

text \<open>The invariant of the search session between two calls of the callback.\<close>

definition find_ok :: "find_state \<Rightarrow> editorConfig \<Rightarrow> bool" where
  "find_ok F E = (saved_ok F E \<and> -1 \<le> last_match F \<and> last_match F < max 0 (numrows E))"

text \<open>What a row operation leaves unchanged next to a well-formed row store: the size of the
  allocation, the row count and the cursor.\<close>

definition kept :: "editorConfig \<Rightarrow> editorConfig \<Rightarrow> bool" where
  "kept E E' =
     (store_inv E' \<and> length (row E') = length (row E) \<and> numrows E' = numrows E
      \<and> cx E' = cx E \<and> cy E' = cy E)"

text \<open>The display column reached after the first \<open>n\<close> raw bytes.\<close>

definition width_upto :: "string \<Rightarrow> nat \<Rightarrow> int" where
  "width_upto cs n = foldl (\<lambda>x c. tab_advance c x) 0 (take n cs)"

section \<open>Concrete documents\<close>

text \<open>A row holding \<^verbatim>\<open><TAB>ab\<close>, and an editor showing it with the cursor after the tab.\<close>

definition tab_row :: erow where
  "tab_row = \<lparr>idx = 0, chars = [CHR 0x09, CHR ''a'', CHR ''b''], render = ''  ab'',
     hl = replicate 4 HL_NORMAL, hl_open_comment = False\<rparr>"

definition tab_doc :: editorConfig where
  "tab_doc = (initEditor 24 80)\<lparr>row := [tab_row], numrows := 1, cx := 1\<rparr>"

text \<open>The display text \<^verbatim>\<open>"\n"\<close>: a quote, a backslash, the letter n, a quote.\<close>

definition escape_text :: string where
  "escape_text = [CHR 0x22, CHR 0x5C, CHR ''n'', CHR 0x22]"

text \<open>A document of three one-letter rows, as \<^verbatim>\<open>editorOpen\<close> builds it: the allocation has
  exactly \<open>numrows\<close> slots.\<close>

definition plain_row :: "int \<Rightarrow> string \<Rightarrow> erow" where
  "plain_row i s = \<lparr>idx = i, chars = s, render = s, hl = replicate (length s) HL_NORMAL,
     hl_open_comment = False\<rparr>"

definition doc3 :: editorConfig where
  "doc3 = (initEditor 24 80)\<lparr>row := [plain_row 0 ''a'', plain_row 1 ''b'', plain_row 2 ''c''],
     numrows := 3\<rparr>"

definition dirty_doc :: editorConfig where
  "dirty_doc = doc3\<lparr>dirty := 1\<rparr>"

text \<open>The three-row document with the cursor on its last row.\<close>

definition doc3_last :: editorConfig where
  "doc3_last = doc3\<lparr>cy := 2\<rparr>"

text \<open>The three-row document with the cursor at the start of its second row, where deleting a
  character joins the second row to the first.\<close>

definition doc3_join :: editorConfig where
  "doc3_join = doc3\<lparr>cy := 1\<rparr>"

text \<open>A C document whose first row has just become \<^verbatim>\<open>/*\<close> and has not been highlighted again
  yet.\<close>

definition comment_doc :: editorConfig where
  "comment_doc = (initEditor 24 80)\<lparr>row := [plain_row 0 ''/*'', plain_row 1 ''b'', plain_row 2 ''c''],
     numrows := 3, cur_syntax := Some HLDB_c\<rparr>"

text \<open>A three-row document whose first row holds the bytes \<^verbatim>\<open>a\<close>, NUL, \<^verbatim>\<open>b\<close> (as \<^verbatim>\<open>getline\<close>
  delivers them from a file), with the cursor on the last row.\<close>

definition nul_doc :: editorConfig where
  "nul_doc = (initEditor 24 80)\<lparr>row := [plain_row 0 [CHR ''a'', CHR 0x00, CHR ''b''],
     plain_row 1 ''c'', plain_row 2 ''d''], numrows := 3, cy := 2\<rparr>"

text \<open>A C document, as \<^verbatim>\<open>editorOpen\<close> builds it, whose first row is the line comment \<^verbatim>\<open>//\<close>, with
  the cursor at the end of that row.\<close>

definition line_comment_doc :: editorConfig where
  "line_comment_doc = (initEditor 24 80)\<lparr>row := [\<lparr>idx = 0, chars = ''//'', render = ''//'',
       hl = [HL_COMMENT, HL_COMMENT], hl_open_comment = False\<rparr>, plain_row 1 ''b'',
       plain_row 2 ''c''],
     numrows := 3, cx := 2, filename := Some ''f.c'', cur_syntax := Some HLDB_c\<rparr>"


section \<open>Column conversion round trip\<close>

lemma tab_advance_gt: "x < tab_advance c x"
proof -
  have "x mod 2 < 2" by simp
  then show ?thesis by (simp add: tab_advance_def EDITOR_TAB_STOP_def)
qed

lemma width_upto_0: "width_upto cs 0 = 0"
  by (simp add: width_upto_def)

lemma width_upto_Suc:
  assumes "n < length cs"
  shows "width_upto cs (Suc n) = tab_advance (cs ! n) (width_upto cs n)"
  using assms by (simp add: width_upto_def take_Suc_conv_app_nth)

lemma width_upto_less:
  assumes "m < n" "n \<le> length cs"
  shows "width_upto cs m < width_upto cs n"
  using assms
proof (induction n)
  case 0
  then show ?case by simp
next
  case (Suc n)
  have step: "width_upto cs n < width_upto cs (Suc n)"
    using Suc.prems by (simp add: width_upto_Suc tab_advance_gt)
  show ?case
  proof (cases "m = n")
    case True
    then show ?thesis using step by simp
  next
    case False
    then have "width_upto cs m < width_upto cs n" using Suc by simp
    then show ?thesis using step by simp
  qed
qed

lemma CxToRx_loop_width:
  assumes "j \<le> n" "n \<le> length cs"
  shows "CxToRx_loop cs (int n) (int j) (width_upto cs j) = Some (width_upto cs n)"
  using assms
proof (induction "n - j" arbitrary: j)
  case 0
  then show ?case by (simp add: CxToRx_loop.simps)
next
  case (Suc d)
  then have lt: "j < n" and "j < length cs" by simp_all
  then have "CxToRx_loop cs (int n) (int j) (width_upto cs j)
      = CxToRx_loop cs (int n) (int (Suc j)) (width_upto cs (Suc j))"
    by (subst CxToRx_loop.simps) (simp add: byte_at_def width_upto_Suc add.commute)
  also have "\<dots> = Some (width_upto cs n)"
    using Suc lt by (intro Suc.hyps) simp_all
  finally show ?case .
qed

lemma RxToCx_loop_width:
  assumes "j \<le> n" "n \<le> length cs"
  shows "RxToCx_loop cs (width_upto cs n) (int j) (width_upto cs j) = int n"
  using assms
proof (induction "n - j" arbitrary: j)
  case 0
  then have eq: "j = n" by simp
  show ?case
  proof (cases "n < length cs")
    case True
    then show ?thesis
      using eq tab_advance_gt [of "width_upto cs n" "cs ! n"]
      by (subst RxToCx_loop.simps) (simp add: byte_at_def Let_def)
  next
    case False
    then show ?thesis using eq 0 by (subst RxToCx_loop.simps) simp
  qed
next
  case (Suc d)
  then have lt: "j < n" and jl: "j < length cs" by simp_all
  have "width_upto cs (Suc j) \<le> width_upto cs n"
  proof (cases "Suc j = n")
    case True then show ?thesis by simp
  next
    case False
    then show ?thesis using lt Suc.prems width_upto_less [of "Suc j" n cs] by simp
  qed
  then have "RxToCx_loop cs (width_upto cs n) (int j) (width_upto cs j)
      = RxToCx_loop cs (width_upto cs n) (int (Suc j)) (width_upto cs (Suc j))"
    using jl by (subst RxToCx_loop.simps) (simp add: byte_at_def width_upto_Suc Let_def add.commute)
  also have "\<dots> = int n"
    using Suc lt by (intro Suc.hyps) simp_all
  finally show ?case .
qed

text \<open>Claim C4: for every row and every raw column \<open>cx\<close> with \<open>0 \<le> cx \<le> size\<close>, converting
  \<open>cx\<close> to a display column with \<^verbatim>\<open>editorRowCxToRx\<close> succeeds and converting the result back
  with \<^verbatim>\<open>editorRowRxToCx\<close> gives \<open>cx\<close> again.\<close>

theorem C4_cx_rx_roundtrip:
  assumes "0 \<le> c" "c \<le> size_of r"
  shows "\<exists>x. editorRowCxToRx r c = Some x \<and> editorRowRxToCx r x = c"
proof -
  obtain n where n: "c = int n" "n \<le> length (chars r)"
    using assms by (metis nat_le_iff nonneg_int_cases of_nat_le_iff)
  have a: "editorRowCxToRx r c = Some (width_upto (chars r) n)"
    using CxToRx_loop_width [of 0 n "chars r"] n
    by (simp add: editorRowCxToRx_def width_upto_0)
  have b: "editorRowRxToCx r (width_upto (chars r) n) = c"
    using RxToCx_loop_width [of 0 n "chars r"] n
    by (simp add: editorRowRxToCx_def width_upto_0)
  show ?thesis using a b by simp
qed

theorem C4_cx_rx_roundtrip_witness:
  "(0::int) \<le> 2 \<and> 2 \<le> size_of tab_row
   \<and> (\<exists>x. editorRowCxToRx tab_row 2 = Some x \<and> editorRowRxToCx tab_row x = 2)"
  using C4_cx_rx_roundtrip [of 2 tab_row] by (simp add: tab_row_def)

section \<open>The display column, escapes in strings, and row indices\<close>

lemma doc3_loaded:
  "editorOpen ''a'' [''a'', ''b'', ''c''] (initEditor 24 80)
     = Some (Ok (doc3\<lparr>filename := Some ''a''\<rparr>))"
  by code_simp

text \<open>Claim C1 says that after \<^verbatim>\<open>editorScroll\<close> the stored display column \<open>rx\<close> is
  \<^verbatim>\<open>editorRowCxToRx\<close> of the cursor.  The function assigns \<^verbatim>\<open>E.rx = E.cx\<close> instead: with the
  cursor after a leading tab, \<open>rx\<close> is \<open>1\<close> while the display column of the cursor is \<open>2\<close>.\<close>

theorem C1_scroll_rx_is_cx:
  "rx (editorScroll tab_doc) = 1
   \<and> editorRowCxToRx (row tab_doc ! nat (cy tab_doc)) (cx tab_doc) = Some 2"
  by code_simp

text \<open>Claim C2 says that inside a string a backslash and the byte after it are both classified
  String.  The scan of the display text \<^verbatim>\<open>"\n"\<close> classifies the backslash and skips the byte
  after it, which keeps the value \<^verbatim>\<open>HL_NORMAL\<close> of the initial \<^verbatim>\<open>memset\<close>; the string stays
  open over that byte and is closed by the last quote.\<close>

theorem C2_escaped_byte_stays_normal:
  "scan_row HLDB_c escape_text 0 True (CHR 0x00) False (replicate 4 HL_NORMAL)
     = ([HL_STRING, HL_STRING, HL_NORMAL, HL_STRING], False)"
  by code_simp

text \<open>Claim C3 says that \<^verbatim>\<open>editorDelRow\<close> keeps \<open>row[i].idx = i\<close> by shifting the indices of the
  following rows down, inside the row array.  Deleting row \<open>1\<close> of the three-row document
  increments the indices behind the deleted row instead, up to and including slot \<open>numrows\<close>,
  which is outside the allocation; at that access the row that has moved to position \<open>1\<close> still
  has index \<open>2\<close>.\<close>

theorem C3_delrow_bumps_indices:
  "map_option fault_of (editorDelRow 1 doc3) = Some (Some 3)
   \<and> map_option (\<lambda>out. map idx (row (state_of out))) (editorDelRow 1 doc3) = Some [0, 2, 3]"
  by code_simp

section \<open>The quit confirmation counter\<close>

text \<open>Claim C8: the quit key, while the document is dirty and the counter is positive, decrements
  the counter and warns instead of exiting; it exits when the document is clean or the counter is
  not positive; every other key resets the counter to \<open>3\<close>.  So from the initial counter a dirty
  document survives exactly three consecutive quit presses, and the fourth exits.\<close>

theorem C8_quit_confirmation:
  "(dirty E \<noteq> 0 \<and> 0 < q \<longrightarrow> editorProcessKeypress d CTRL_Q q E = Warned (q - 1) E)
   \<and> (dirty E = 0 \<or> q \<le> 0 \<longrightarrow> editorProcessKeypress d CTRL_Q q E = Exit)
   \<and> (c \<noteq> CTRL_Q \<longrightarrow> editorProcessKeypress d c q E = Handled EDITOR_QUIT_TIMES (d c E))
   \<and> (dirty E \<noteq> 0 \<longrightarrow>
        run_keys d [CTRL_Q] EDITOR_QUIT_TIMES E = Some (2, E)
        \<and> run_keys d [CTRL_Q, CTRL_Q] EDITOR_QUIT_TIMES E = Some (1, E)
        \<and> run_keys d [CTRL_Q, CTRL_Q, CTRL_Q] EDITOR_QUIT_TIMES E = Some (0, E)
        \<and> run_keys d [CTRL_Q, CTRL_Q, CTRL_Q, CTRL_Q] EDITOR_QUIT_TIMES E = None)"
  by (simp add: editorProcessKeypress_def EDITOR_QUIT_TIMES_def)

theorem C8_quit_confirmation_witness:
  "dirty dirty_doc \<noteq> 0 \<and> (0::int) < 3 \<and> (105::int) \<noteq> CTRL_Q
   \<and> editorProcessKeypress (\<lambda>c E. E) CTRL_Q 3 dirty_doc = Warned 2 dirty_doc
   \<and> editorProcessKeypress (\<lambda>c E. E) 105 3 dirty_doc = Handled EDITOR_QUIT_TIMES dirty_doc
   \<and> run_keys (\<lambda>c E. E) [CTRL_Q, CTRL_Q, CTRL_Q] EDITOR_QUIT_TIMES dirty_doc = Some (0, dirty_doc)
   \<and> run_keys (\<lambda>c E. E) [CTRL_Q, CTRL_Q, CTRL_Q, CTRL_Q] EDITOR_QUIT_TIMES dirty_doc = None
   \<and> dirty doc3 = 0 \<and> editorProcessKeypress (\<lambda>c E. E) CTRL_Q 3 doc3 = Exit"
  using C8_quit_confirmation [of dirty_doc 3 "\<lambda>c E. E" 105]
        C8_quit_confirmation [of doc3 3 "\<lambda>c E. E" 105]
  by (simp add: dirty_doc_def doc3_def initEditor_def CTRL_Q_def)

section \<open>Incremental search\<close>

lemma find_loop_nomatch:
  assumes "\<forall>j < nat (numrows E). strstr (render (row E ! j)) q = None"
    and "nat (numrows E) \<le> length (row E)"
    and "dir = 1 \<or> dir = -1"
    and "-1 \<le> cur" "cur < numrows E" "dir = -1 \<longrightarrow> 0 \<le> cur"
    and "k \<le> nat (numrows E)"
  shows "find_loop q E dir cur k = (cyclic_order (numrows E) cur dir k, NoMatch)"
  using assms(4-7)
proof (induction k arbitrary: cur)
  case 0
  then show ?case by (simp add: cyclic_order_def)
next
  case (Suc k)
  define n where "n = numrows E"
  define c2 where "c2 = find_wrap n (cur + dir)"
  have npos: "0 < n" using Suc.prems n_def by simp
  have c2r: "0 \<le> c2" "c2 < n"
    using Suc.prems assms(3) npos by (auto simp: c2_def n_def find_wrap_def)
  have c2m: "c2 = (cur + dir) mod n"
  proof -
    have "(cur + dir) = -1 \<or> cur + dir = n \<or> (0 \<le> cur + dir \<and> cur + dir < n)"
      using Suc.prems assms(3) n_def by auto
    then show ?thesis
      using npos by (auto simp: c2_def find_wrap_def zmod_minus1)
  qed
  have len: "c2 < int (length (row E))" using c2r assms(2) n_def by linarith
  have nm: "strstr (render (row E ! nat c2)) q = None"
    using assms(1) c2r n_def by simp
  have ih: "find_loop q E dir c2 k = (cyclic_order n c2 dir k, NoMatch)"
    using Suc.IH [of c2] c2r Suc.prems n_def by simp
  have "find_loop q E dir cur (Suc k) = (c2 # cyclic_order n c2 dir k, NoMatch)"
    using c2r len nm ih by (simp add: Let_def c2_def [symmetric] n_def [symmetric])
  moreover have "c2 # cyclic_order n c2 dir k = cyclic_order n cur dir (Suc k)"
  proof -
    have "\<And>i. (c2 + dir * (int i + 1)) mod n = (cur + dir * (int (Suc i) + 1)) mod n"
    proof -
      fix i
      have "(c2 + dir * (int i + 1)) mod n = ((cur + dir) + dir * (int i + 1)) mod n"
        unfolding c2m by (simp add: mod_add_left_eq)
      also have "(cur + dir) + dir * (int i + 1) = cur + dir * (int (Suc i) + 1)"
        by (simp add: algebra_simps)
      finally show "(c2 + dir * (int i + 1)) mod n = (cur + dir * (int (Suc i) + 1)) mod n" .
    qed
    then have "cyclic_order n c2 dir k = map (\<lambda>i. (cur + dir * (int i + 1)) mod n) (map Suc [0 ..< k])"
      by (simp add: cyclic_order_def)
    moreover have "c2 = (cur + dir * (int 0 + 1)) mod n" using c2m by simp
    ultimately show ?thesis
      unfolding cyclic_order_def by (simp add: upt_conv_Cons map_Suc_upt del: upt_Suc)
  qed
  ultimately show ?case by (simp add: n_def)
qed

lemma cyclic_order_perm:
  assumes "0 < n" "dir = 1 \<or> dir = -1"
  shows "distinct (cyclic_order n cur dir (nat n)) \<and> set (cyclic_order n cur dir (nat n)) = {0 ..< n}"
proof -
  let ?f = "\<lambda>i. (cur + dir * (int i + 1)) mod n"
  have inj: "inj_on ?f {0 ..< nat n}"
  proof (rule inj_onI)
    fix i j assume i: "i \<in> {0 ..< nat n}" and j: "j \<in> {0 ..< nat n}" and e: "?f i = ?f j"
    then have "n dvd ((cur + dir * (int i + 1)) - (cur + dir * (int j + 1)))"
      by (simp add: mod_eq_dvd_iff)
    then have "n dvd dir * (int i - int j)" by (simp add: algebra_simps)
    then have "n dvd (int i - int j)"
      using assms(2) dvd_minus_iff [of n "int i - int j"] by auto
    moreover have "\<bar>int i - int j\<bar> < n" using i j by auto
    ultimately have "int i - int j = 0"
      using dvd_imp_le_int by (metis abs_zero assms(1) less_le_not_le zdvd_not_zless abs_dvd_iff dvd_abs_iff zero_less_abs_iff)
    then show "i = j" by simp
  qed
  have d: "distinct (cyclic_order n cur dir (nat n))"
    unfolding cyclic_order_def using inj by (simp add: distinct_map)
  have sub: "set (cyclic_order n cur dir (nat n)) \<subseteq> {0 ..< n}"
    using assms(1) by (auto simp: cyclic_order_def)
  have "card (set (cyclic_order n cur dir (nat n))) = length (cyclic_order n cur dir (nat n))"
    using d by (rule distinct_card)
  then have "card (set (cyclic_order n cur dir (nat n))) = nat n"
    by (simp add: cyclic_order_def)
  then have "set (cyclic_order n cur dir (nat n)) = {0 ..< n}"
    using sub by (intro card_subset_eq) auto
  then show ?thesis using d by simp
qed

lemma find_key_update_cases:
  "find_key_update key F = F\<lparr>direction := 1\<rparr>
   \<or> (find_key_update key F = F\<lparr>direction := -1\<rparr> \<and> last_match F \<noteq> -1)
   \<or> find_key_update key F = F\<lparr>last_match := -1, direction := 1\<rparr>"
  unfolding find_key_update_def Let_def by simp

lemma find_key_update_range:
  assumes "-1 \<le> last_match F" "last_match F < n" "0 \<le> n"
  shows "-1 \<le> last_match (find_key_update key F)
    \<and> last_match (find_key_update key F) < n
    \<and> (direction (find_key_update key F) = 1 \<or> direction (find_key_update key F) = -1)
    \<and> (direction (find_key_update key F) = -1 \<longrightarrow> 0 \<le> last_match (find_key_update key F))"
proof -
  consider "find_key_update key F = F\<lparr>direction := 1\<rparr>"
    | "find_key_update key F = F\<lparr>direction := -1\<rparr>" "last_match F \<noteq> -1"
    | "find_key_update key F = F\<lparr>last_match := -1, direction := 1\<rparr>"
    using find_key_update_cases [of key F] by blast
  then show ?thesis
  proof cases
    case 1 then show ?thesis using assms by simp
  next
    case 2 then show ?thesis using assms by simp
  next
    case 3 then show ?thesis using assms by simp
  qed
qed

lemma restore_saved_hl_ok:
  assumes "saved_hl F \<noteq> None \<longrightarrow> 0 \<le> saved_hl_line F \<and> saved_hl_line F < int (length (row E))"
  shows "restore_saved_hl (F, E) = Ok (F\<lparr>saved_hl := None\<rparr>, E\<lparr>row := restored_rows F E\<rparr>)"
proof (cases "saved_hl F")
  case None
  then show ?thesis by (simp add: restore_saved_hl_def restored_rows_def)
next
  case (Some sv)
  then show ?thesis using assms by (simp add: restore_saved_hl_def restored_rows_def Let_def)
qed


lemma restored_rows_length: "length (restored_rows F E) = length (row E)"
  by (cases "saved_hl F") (simp_all add: restored_rows_def)

lemma restored_rows_nth:
  assumes "j < length (row E)"
  shows "chars (restored_rows F E ! j) = chars (row E ! j)
    \<and> render (restored_rows F E ! j) = render (row E ! j)
    \<and> idx (restored_rows F E ! j) = idx (row E ! j)
    \<and> hl_open_comment (restored_rows F E ! j) = hl_open_comment (row E ! j)"
proof (cases "saved_hl F")
  case None
  then show ?thesis by (simp add: restored_rows_def)
next
  case (Some sv)
  show ?thesis
  proof (cases "j = nat (saved_hl_line F)")
    case True
    then show ?thesis using assms Some by (simp add: restored_rows_def)
  next
    case False
    then show ?thesis using Some by (simp add: restored_rows_def)
  qed
qed

lemma restored_rows_maps:
  "map chars (restored_rows F E) = map chars (row E)"
  "map render (restored_rows F E) = map render (row E)"
  by (simp_all add: list_eq_iff_nth_eq restored_rows_length restored_rows_nth)


text \<open>Claim C10: a call of \<^verbatim>\<open>editorFindCallback\<close> in which no row of the document matches the
  query (the \<^verbatim>\<open>strstr\<close> test on \<^verbatim>\<open>render\<close> fails on every row) returns normally and leaves the
  editor state as it was, except that the highlight row saved by the previous call is copied
  back: cursor, offsets and row contents are unchanged, and so is every highlight array other
  than the restored one.\<close>

theorem C10_no_match_frame:
  assumes "\<forall>j < nat (numrows E). strstr (render (row E ! j)) q = None"
    and "nat (numrows E) \<le> length (row E)"
    and "-1 \<le> last_match F" and "last_match F < numrows E"
    and "saved_hl F \<noteq> None \<longrightarrow> 0 \<le> saved_hl_line F \<and> saved_hl_line F < numrows E"
  shows "(\<exists>F'. editorFindCallback q key (F, E) = Ok (F', E\<lparr>row := restored_rows F E\<rparr>))
    \<and> map chars (restored_rows F E) = map chars (row E)
    \<and> map render (restored_rows F E) = map render (row E)
    \<and> (\<forall>j. saved_hl F = None \<or> j \<noteq> nat (saved_hl_line F) \<longrightarrow> restored_rows F E ! j = row E ! j)"
proof -
  define E1 where "E1 = E\<lparr>row := restored_rows F E\<rparr>"
  define F1 where "F1 = F\<lparr>saved_hl := None\<rparr>"
  define F3 where "F3 = find_key_update key F1"
  have n0: "0 \<le> numrows E" using assms(3,4) by simp
  have e1: "numrows E1 = numrows E" "row E1 = restored_rows F E"
    by (simp_all add: E1_def)
  have "saved_hl F \<noteq> None \<longrightarrow> 0 \<le> saved_hl_line F \<and> saved_hl_line F < int (length (row E))"
    using assms(2,5) n0 by linarith
  then have r: "restore_saved_hl (F, E) = Ok (F1, E1)"
    unfolding F1_def E1_def by (rule restore_saved_hl_ok)
  have nm: "\<forall>j < nat (numrows E1). strstr (render (row E1 ! j)) q = None"
  proof (intro allI impI)
    fix j assume j: "j < nat (numrows E1)"
    then have "j < length (row E)" using assms(2) e1 by simp
    then have "render (row E1 ! j) = render (row E ! j)"
      using restored_rows_nth [of j E F] e1 by simp
    then show "strstr (render (row E1 ! j)) q = None" using assms(1) j e1 by simp
  qed
  have f1: "-1 \<le> last_match F1" "last_match F1 < numrows E"
    using assms(3,4) by (simp_all add: F1_def)
  have rg: "-1 \<le> last_match F3 \<and> last_match F3 < numrows E
      \<and> (direction F3 = 1 \<or> direction F3 = -1) \<and> (direction F3 = -1 \<longrightarrow> 0 \<le> last_match F3)"
    unfolding F3_def using f1 n0 by (rule find_key_update_range)
  have "find_loop q E1 (direction F3) (last_match F3) (nat (numrows E1))
      = (cyclic_order (numrows E1) (last_match F3) (direction F3) (nat (numrows E1)), NoMatch)"
  proof (rule find_loop_nomatch)
    show "\<forall>j<nat (numrows E1). strstr (render (row E1 ! j)) q = None" by (rule nm)
    show "nat (numrows E1) \<le> length (row E1)" using assms(2) e1 by (simp add: restored_rows_length)
    show "direction F3 = 1 \<or> direction F3 = - 1" using rg by blast
    show "- 1 \<le> last_match F3" using rg by blast
    show "last_match F3 < numrows E1" using rg e1 by simp
    show "direction F3 = - 1 \<longrightarrow> 0 \<le> last_match F3" using rg by blast
    show "nat (numrows E1) \<le> nat (numrows E1)" by simp
  qed
  then have nomatch: "snd (find_loop q E1 (direction F3) (last_match F3) (nat (numrows E1))) = NoMatch"
    by simp
  have "editorFindCallback q key (F, E)
      = (if key = KEY_ENTER \<or> key = KEY_ESC then Ok (F1\<lparr>last_match := -1, direction := 1\<rparr>, E1)
         else Ok (F3, E1))"
    unfolding editorFindCallback_def r using nomatch by (simp add: Let_def F3_def [symmetric])
  then have "\<exists>F'. editorFindCallback q key (F, E) = Ok (F', E1)"
    by (cases "key = KEY_ENTER \<or> key = KEY_ESC") simp_all
  then have a: "\<exists>F'. editorFindCallback q key (F, E) = Ok (F', E\<lparr>row := restored_rows F E\<rparr>)"
    by (simp only: E1_def)
  have b: "\<forall>j. saved_hl F = None \<or> j \<noteq> nat (saved_hl_line F) \<longrightarrow> restored_rows F E ! j = row E ! j"
  proof (cases "saved_hl F")
    case None then show ?thesis by (simp add: restored_rows_def)
  next
    case (Some sv) then show ?thesis by (simp add: restored_rows_def)
  qed
  show ?thesis
    using a b restored_rows_maps(1) [of F E] restored_rows_maps(2) [of F E]
    by (intro conjI)
qed


lemma find_key_update_fresh:
  assumes "last_match F = -1"
  shows "last_match (find_key_update key F) = -1 \<and> direction (find_key_update key F) = 1"
  using assms unfolding find_key_update_def Let_def by simp

lemma find_loop_first_row:
  assumes "0 < numrows E" "nat (numrows E) \<le> length (row E)"
    and "strstr (render (row E ! 0)) q = Some off"
  shows "find_loop q E 1 (-1) (nat (numrows E)) = ([0], Match 0 off)"
proof -
  obtain k where k: "nat (numrows E) = Suc k"
    using assms(1) by (metis Suc_pred' zero_less_nat_eq)
  have w: "find_wrap (numrows E) (-1 + 1) = 0"
    by (simp add: find_wrap_def)
  have "row E \<noteq> []" using assms(2) k by auto
  then have "0 < length (row E)" by simp
  then show ?thesis
    unfolding k using w assms(3) by (simp add: Let_def)
qed

lemma search_first_row_and_order:
  assumes "last_match F = -1" and "saved_hl F = None"
    and "key \<noteq> KEY_ENTER" and "key \<noteq> KEY_ESC"
    and "0 < numrows E" and "nat (numrows E) \<le> length (row E)"
    and "strstr (render (row E ! 0)) q = Some off"
  shows "(\<exists>F' E'. editorFindCallback q key (F, E) = Ok (F', E') \<and> cy E' = 0
            \<and> cx E' = editorRowRxToCx (row E ! 0) (int off) \<and> last_match F' = 0)
    \<and> (\<forall>q' dir cur.
          (dir = 1 \<or> dir = -1) \<and> -1 \<le> cur \<and> cur < numrows E \<and> (dir = -1 \<longrightarrow> 0 \<le> cur)
          \<and> (\<forall>j < nat (numrows E). strstr (render (row E ! j)) q' = None)
          \<longrightarrow> fst (find_loop q' E dir cur (nat (numrows E)))
                = cyclic_order (numrows E) cur dir (nat (numrows E))
              \<and> distinct (fst (find_loop q' E dir cur (nat (numrows E))))
              \<and> set (fst (find_loop q' E dir cur (nat (numrows E)))) = {0 ..< numrows E})"
proof (intro conjI allI impI)
  define F3 where "F3 = find_key_update key F"
  have r: "restore_saved_hl (F, E) = Ok (F, E)"
    using assms(2) by (simp add: restore_saved_hl_def)
  have f3: "last_match F3 = -1" "direction F3 = 1"
    using find_key_update_fresh [OF assms(1), of key] by (simp_all add: F3_def)
  have fl: "snd (find_loop q E (direction F3) (last_match F3) (nat (numrows E))) = Match 0 off"
    using find_loop_first_row [OF assms(5,6,7)] f3 by simp
  have "editorFindCallback q key (F, E)
      = Ok (F3\<lparr>last_match := 0, saved_hl_line := 0,
                saved_hl := Some (take (length (render (row E ! 0))) (hl (row E ! 0)))\<rparr>,
            E\<lparr>cy := 0, cx := editorRowRxToCx (row E ! 0) (int off), rowoff := numrows E,
              row := (row E)[0 := (row E ! 0)\<lparr>hl := memset_hl (hl (row E ! 0)) off HL_MATCH
                                                   (length (c_str q))\<rparr>]\<rparr>)"
    unfolding editorFindCallback_def r using fl assms(3,4)
    by (simp add: Let_def F3_def [symmetric])
  then show "\<exists>F' E'. editorFindCallback q key (F, E) = Ok (F', E') \<and> cy E' = 0
            \<and> cx E' = editorRowRxToCx (row E ! 0) (int off) \<and> last_match F' = 0"
    by simp
next
  fix q' :: string and dir cur :: int
  assume h: "(dir = 1 \<or> dir = -1) \<and> -1 \<le> cur \<and> cur < numrows E \<and> (dir = -1 \<longrightarrow> 0 \<le> cur)
          \<and> (\<forall>j < nat (numrows E). strstr (render (row E ! j)) q' = None)"
  have fl: "find_loop q' E dir cur (nat (numrows E))
      = (cyclic_order (numrows E) cur dir (nat (numrows E)), NoMatch)"
    using h assms(6) by (intro find_loop_nomatch) simp_all
  have p: "distinct (cyclic_order (numrows E) cur dir (nat (numrows E)))
      \<and> set (cyclic_order (numrows E) cur dir (nat (numrows E))) = {0 ..< numrows E}"
    using h assms(5) by (intro cyclic_order_perm) simp_all
  show "fst (find_loop q' E dir cur (nat (numrows E)))
      = cyclic_order (numrows E) cur dir (nat (numrows E))"
    using fl by simp
  show "distinct (fst (find_loop q' E dir cur (nat (numrows E))))" using fl p by simp
  show "set (fst (find_loop q' E dir cur (nat (numrows E)))) = {0 ..< numrows E}"
    using fl p by simp
qed


lemma take_eq_prefix: "take (length nd) h = nd \<longleftrightarrow> prefix nd h"
proof
  assume "take (length nd) h = nd"
  then show "prefix nd h" by (metis take_is_prefix)
next
  assume "prefix nd h"
  then show "take (length nd) h = nd" by (auto simp: prefix_def)
qed

lemma strstr_from_sublist: "strstr_from h nd k \<noteq> None \<longleftrightarrow> sublist nd h"
proof (induction h arbitrary: k)
  case Nil
  then show ?case by simp
next
  case (Cons c cs)
  show ?case
  proof (cases "take (length nd) (c # cs) = nd")
    case True
    then have "prefix nd (c # cs)" using take_eq_prefix by blast
    then show ?thesis using True by (simp add: sublist_Cons_right)
  next
    case False
    then have "\<not> prefix nd (c # cs)" using take_eq_prefix by blast
    then show ?thesis using False Cons.IH [of "Suc k"] by (simp add: sublist_Cons_right)
  qed
qed

lemma strstr_sublist: "strstr hay nd \<noteq> None \<longleftrightarrow> sublist (c_str nd) (c_str hay)"
  unfolding strstr_def by (rule strstr_from_sublist)

text \<open>Claim C7 says that a query that is a substring of row \<open>0\<close>'s display text only moves the
  cursor from the last row to row \<open>0\<close>.  The search compares C strings: in the document whose
  row \<open>0\<close> is \<^verbatim>\<open>a\<close>, NUL, \<^verbatim>\<open>b\<close> the query \<^verbatim>\<open>b\<close> occurs in the display text of row \<open>0\<close> and of no
  other row, and the callback leaves the cursor on the last row.\<close>

theorem C7_search_wraps_counterexample:
  "sublist ''b'' (render (row nul_doc ! 0))
   \<and> \<not> sublist ''b'' (render (row nul_doc ! 1))
   \<and> \<not> sublist ''b'' (render (row nul_doc ! 2))
   \<and> cy nul_doc = numrows nul_doc - 1
   \<and> editorFindCallback ''b'' 98 (find_init, nul_doc) = Ok (find_init, nul_doc)
   \<and> cy nul_doc \<noteq> 0"
  by code_simp

text \<open>Claim C7, amended: in a fresh search session (no last match, nothing saved) a key other
  than Enter and Escape whose query occurs in row \<open>0\<close>'s display text before that text's first
  NUL byte moves the cursor to row \<open>0\<close>, wherever the cursor was, the last row included.  A scan
  for a query that occurs in no row (before the row's first NUL byte) examines the rows
  \<open>last_match + direction\<close>, \<open>last_match + 2 direction\<close>, ... modulo the row count: every row
  exactly once.\<close>

theorem C7_search_wraps:
  assumes "last_match F = -1" and "saved_hl F = None"
    and "key \<noteq> KEY_ENTER" and "key \<noteq> KEY_ESC"
    and "0 < numrows E" and "nat (numrows E) \<le> length (row E)"
    and "sublist (c_str q) (c_str (render (row E ! 0)))"
  shows "(\<exists>F' E' off. editorFindCallback q key (F, E) = Ok (F', E') \<and> cy E' = 0
            \<and> strstr (render (row E ! 0)) q = Some off
            \<and> cx E' = editorRowRxToCx (row E ! 0) (int off) \<and> last_match F' = 0)
    \<and> (\<forall>q' dir cur.
          (dir = 1 \<or> dir = -1) \<and> -1 \<le> cur \<and> cur < numrows E \<and> (dir = -1 \<longrightarrow> 0 \<le> cur)
          \<and> (\<forall>j < nat (numrows E). \<not> sublist (c_str q') (c_str (render (row E ! j))))
          \<longrightarrow> fst (find_loop q' E dir cur (nat (numrows E)))
                = cyclic_order (numrows E) cur dir (nat (numrows E))
              \<and> distinct (fst (find_loop q' E dir cur (nat (numrows E))))
              \<and> set (fst (find_loop q' E dir cur (nat (numrows E)))) = {0 ..< numrows E})"
proof -
  obtain off where off: "strstr (render (row E ! 0)) q = Some off"
    using assms(7) strstr_sublist [of "render (row E ! 0)" q] by auto
  note h = search_first_row_and_order [OF assms(1-6) off]
  have a: "\<exists>F' E' off. editorFindCallback q key (F, E) = Ok (F', E') \<and> cy E' = 0
            \<and> strstr (render (row E ! 0)) q = Some off
            \<and> cx E' = editorRowRxToCx (row E ! 0) (int off) \<and> last_match F' = 0"
    using h off by blast
  have b: "\<forall>q' dir cur.
          (dir = 1 \<or> dir = -1) \<and> -1 \<le> cur \<and> cur < numrows E \<and> (dir = -1 \<longrightarrow> 0 \<le> cur)
          \<and> (\<forall>j < nat (numrows E). \<not> sublist (c_str q') (c_str (render (row E ! j))))
          \<longrightarrow> fst (find_loop q' E dir cur (nat (numrows E)))
                = cyclic_order (numrows E) cur dir (nat (numrows E))
              \<and> distinct (fst (find_loop q' E dir cur (nat (numrows E))))
              \<and> set (fst (find_loop q' E dir cur (nat (numrows E)))) = {0 ..< numrows E}"
  proof (intro allI impI)
    fix q' :: string and dir cur :: int
    assume p: "(dir = 1 \<or> dir = -1) \<and> -1 \<le> cur \<and> cur < numrows E \<and> (dir = -1 \<longrightarrow> 0 \<le> cur)
          \<and> (\<forall>j < nat (numrows E). \<not> sublist (c_str q') (c_str (render (row E ! j))))"
    then have "\<forall>j < nat (numrows E). strstr (render (row E ! j)) q' = None"
      using strstr_sublist by blast
    then show "fst (find_loop q' E dir cur (nat (numrows E)))
                = cyclic_order (numrows E) cur dir (nat (numrows E))
              \<and> distinct (fst (find_loop q' E dir cur (nat (numrows E))))
              \<and> set (fst (find_loop q' E dir cur (nat (numrows E)))) = {0 ..< numrows E}"
      using h p by blast
  qed
  show ?thesis using a b by blast
qed

lemma doc3_last_facts:
  "numrows doc3_last = 3" "length (row doc3_last) = 3" "cy doc3_last = 2"
  "strstr (render (row doc3_last ! 0)) ''a'' = Some 0"
  "\<forall>j < nat (numrows doc3_last). strstr (render (row doc3_last ! j)) ''z'' = None"
proof -
  show n: "numrows doc3_last = 3" by (simp add: doc3_last_def doc3_def)
  show "length (row doc3_last) = 3" by (simp add: doc3_last_def doc3_def)
  show "cy doc3_last = 2" by (simp add: doc3_last_def)
  show "strstr (render (row doc3_last ! 0)) ''a'' = Some 0" by code_simp
  have z: "strstr (render (row doc3_last ! 0)) ''z'' = None"
    "strstr (render (row doc3_last ! 1)) ''z'' = None"
    "strstr (render (row doc3_last ! 2)) ''z'' = None"
    by code_simp+
  show "\<forall>j < nat (numrows doc3_last). strstr (render (row doc3_last ! j)) ''z'' = None"
  proof (intro allI impI)
    fix j assume "j < nat (numrows doc3_last)"
    then have "j = 0 \<or> j = 1 \<or> j = 2" using n by auto
    then show "strstr (render (row doc3_last ! j)) ''z'' = None" using z by auto
  qed
qed

theorem C7_search_wraps_witness:
  "(\<exists>F' E'. editorFindCallback ''a'' 97 (find_init, doc3_last) = Ok (F', E') \<and> cy E' = 0)
   \<and> fst (find_loop ''z'' doc3_last 1 (-1) 3) = [0, 1, 2]"
proof -
  have h: "last_match find_init = -1" "saved_hl find_init = None"
    "(97::int) \<noteq> KEY_ENTER" "(97::int) \<noteq> KEY_ESC"
    "0 < numrows doc3_last" "nat (numrows doc3_last) \<le> length (row doc3_last)"
    by (simp_all add: find_init_def KEY_ENTER_def KEY_ESC_def doc3_last_facts)
  have s: "sublist (c_str ''a'') (c_str (render (row doc3_last ! 0)))"
    using doc3_last_facts(4) strstr_sublist [of "render (row doc3_last ! 0)" "''a''"] by simp
  have z: "\<forall>j < nat (numrows doc3_last). \<not> sublist (c_str ''z'') (c_str (render (row doc3_last ! j)))"
    using doc3_last_facts(5) strstr_sublist by blast
  note c7 = C7_search_wraps [OF h s]
  have a: "\<exists>F' E'. editorFindCallback ''a'' 97 (find_init, doc3_last) = Ok (F', E') \<and> cy E' = 0"
    using c7 by blast
  have "fst (find_loop ''z'' doc3_last 1 (-1) (nat (numrows doc3_last)))
      = cyclic_order (numrows doc3_last) (-1) 1 (nat (numrows doc3_last))"
    using c7 z doc3_last_facts(1) by simp
  moreover have "cyclic_order 3 (-1) 1 3 = [0, 1, 2]" by code_simp
  ultimately have b: "fst (find_loop ''z'' doc3_last 1 (-1) 3) = [0, 1, 2]"
    by (simp add: doc3_last_facts(1))
  show ?thesis using a b by simp
qed

theorem C10_no_match_frame_witness:
  "(\<exists>F'. editorFindCallback ''z'' 97 (find_init, doc3_last) = Ok (F', doc3_last))
   \<and> restored_rows find_init doc3_last = row doc3_last"
proof -
  have h: "-1 \<le> last_match find_init" "last_match find_init < numrows doc3_last"
    "saved_hl find_init \<noteq> None \<longrightarrow> 0 \<le> saved_hl_line find_init \<and> saved_hl_line find_init < numrows doc3_last"
    "nat (numrows doc3_last) \<le> length (row doc3_last)"
    by (simp_all add: find_init_def doc3_last_facts)
  note c10 = C10_no_match_frame [OF doc3_last_facts(5) h(4) h(1) h(2) h(3), of 97]
  have r: "restored_rows find_init doc3_last = row doc3_last"
    by (simp add: restored_rows_def find_init_def)
  then show ?thesis using c10 by simp
qed

section \<open>The highlight array keeps the length of the display text\<close>

lemma strncmp_eq_bound:
  assumes "strncmp_eq rd i tok n" "n \<le> length tok" "i \<le> length rd"
  shows "i + n \<le> length rd"
proof -
  have "length (take n (drop i rd)) = length (take n tok)"
    using assms(1) by (simp add: strncmp_eq_def)
  then show ?thesis using assms(2,3) by (cases "n = 0") auto
qed

lemma tok_bound:
  assumes "strncmp_eq rd i (tok_str t) (tok_len t)" "i \<le> length rd"
  shows "i + tok_len t \<le> length rd"
  using assms by (intro strncmp_eq_bound [of rd i "tok_str t"]) (auto simp: tok_str_def tok_len_def split: option.splits)

lemma memset_hl_length:
  assumes "i + n \<le> length h"
  shows "length (memset_hl h i v n) = length h"
  using assms by (simp add: memset_hl_def)

lemma find_keyword_bound:
  assumes "find_keyword kws rd i = Some (klen, kw2)" "i \<le> length rd"
  shows "i + klen \<le> length rd"
  using assms
proof (induction kws)
  case Nil
  then show ?case by simp
next
  case (Cons kw kws)
  show ?case
  proof (cases "find_keyword kws rd i = Some (klen, kw2)")
    case True
    then show ?thesis using Cons.IH Cons.prems(2) by simp
  next
    case False
    define k2 where "k2 = (kw \<noteq> [] \<and> last kw = CHR ''|'')"
    define kl where "kl = (if k2 then length kw - 1 else length kw)"
    have "strncmp_eq rd i kw kl \<and> klen = kl"
      using Cons.prems False
      by (simp add: Let_def k2_def [symmetric] kl_def [symmetric] split: if_split_asm)
    moreover have "kl \<le> length kw" by (simp add: kl_def)
    ultimately show ?thesis using strncmp_eq_bound Cons.prems(2) by blast
  qed
qed



lemma scan_step_length:
  assumes "length h = length rd" "i < length rd"
  shows "(case scan_step syn rd i ps ins inc h of
            Break h' \<Rightarrow> length h' = length rd
          | Continue i' ps' is' ic' h' \<Rightarrow> length h' = length rd \<and> i' \<le> length rd)"
proof (cases rule: scan_step_cases [of inc syn rd i ps ins h])
  case line_comment
  then show ?thesis using assms by (simp add: memset_hl_length)
next
  case comment_end
  then show ?thesis
    using assms tok_bound [of rd i "multiline_comment_end syn"] by (simp add: memset_hl_length)
next
  case comment_body
  then show ?thesis using assms by simp
next
  case comment_start
  then show ?thesis
    using assms tok_bound [of rd i "multiline_comment_start syn"] by (simp add: memset_hl_length)
next
  case string_escape
  then show ?thesis using assms by simp
next
  case string_body
  then show ?thesis using assms by simp
next
  case string_open
  then show ?thesis using assms by simp
next
  case number
  then show ?thesis using assms by simp
next
  case (keyword klen kw2)
  then show ?thesis
    using assms find_keyword_bound [of "kw_list syn" rd i klen kw2] by (simp add: memset_hl_length)
next
  case normal
  then show ?thesis using assms by simp
qed

lemma scan_row_length:
  assumes "length h = length rd"
  shows "length (fst (scan_row syn rd i ps ins inc h)) = length rd"
  using assms
proof (induction syn rd i ps ins inc h rule: scan_row.induct)
  case (1 syn rd i ps ins inc h)
  show ?case
  proof (cases "i < length rd")
    case False
    then show ?thesis using "1.prems" by (simp add: scan_row.simps)
  next
    case True
    note sl = scan_step_length [OF "1.prems" True, of syn ps ins inc]
    show ?thesis
    proof (cases "scan_step syn rd i ps ins inc h")
      case (Break h')
      then show ?thesis using True sl by (simp add: scan_row.simps)
    next
      case (Continue i' ps' is' ic' h')
      then have "length h' = length rd" using sl by simp
      then have "length (fst (scan_row syn rd i' ps' is' ic' h')) = length rd"
        using "1.IH" True Continue by simp
      then show ?thesis using True Continue by (simp add: scan_row.simps)
    qed
  qed
qed

section \<open>Re-highlighting returns and keeps the row store well-formed\<close>

lemma idx_ge_pos_nth:
  "idx_ge_pos E \<longleftrightarrow> (\<forall>j < length (row E). int j \<le> idx (row E ! j))"
  by (simp add: idx_ge_pos_def list_all_length)

lemma idx_ok_nth:
  assumes "idx_ok E" "j < length (row E)"
  shows "idx (row E ! j) = int j"
proof -
  have "map idx (row E) ! j = map int [0 ..< length (row E)] ! j"
    using assms(1) by (simp add: idx_ok_def)
  then show ?thesis using assms(2) by simp
qed

lemma idx_ok_ge_pos: "idx_ok E \<Longrightarrow> idx_ge_pos E"
  by (simp add: idx_ge_pos_nth idx_ok_nth)

lemma same_text_refl: "same_text E E"
  by (simp add: same_text_def)

lemma same_text_trans:
  assumes "same_text E E1" "same_text E1 E2"
  shows "same_text E E2"
proof -
  have "E2 = E1\<lparr>row := row E2\<rparr>" "E1 = E\<lparr>row := row E1\<rparr>"
    using assms by (simp_all add: same_text_def)
  then have "E2 = (E\<lparr>row := row E1\<rparr>)\<lparr>row := row E2\<rparr>" by simp
  then have "E2 = E\<lparr>row := row E2\<rparr>" by simp
  then show ?thesis using assms by (simp add: same_text_def)
qed

lemma same_text_length:
  assumes "same_text E E'"
  shows "length (row E') = length (row E)"
proof -
  have "length (map text_of (row E')) = length (map text_of (row E))"
    using assms by (simp only: same_text_def)
  then show ?thesis by simp
qed

lemma same_text_fields:
  assumes "same_text E E'"
  shows "numrows E' = numrows E" "cur_syntax E' = cur_syntax E" "cx E' = cx E" "cy E' = cy E"
    "rowoff E' = rowoff E" "coloff E' = coloff E" "dirty E' = dirty E"
proof -
  have e: "E' = E\<lparr>row := row E'\<rparr>" using assms by (simp add: same_text_def)
  show "numrows E' = numrows E" by (subst e) simp
  show "cur_syntax E' = cur_syntax E" by (subst e) simp
  show "cx E' = cx E" by (subst e) simp
  show "cy E' = cy E" by (subst e) simp
  show "rowoff E' = rowoff E" by (subst e) simp
  show "coloff E' = coloff E" by (subst e) simp
  show "dirty E' = dirty E" by (subst e) simp
qed

lemma same_text_nth:
  assumes "same_text E E'" "j < length (row E)"
  shows "idx (row E' ! j) = idx (row E ! j)" "chars (row E' ! j) = chars (row E ! j)"
    "render (row E' ! j) = render (row E ! j)"
proof -
  have "map text_of (row E') ! j = map text_of (row E) ! j"
    using assms(1) by (simp only: same_text_def)
  then have "text_of (row E' ! j) = text_of (row E ! j)"
    using assms(2) same_text_length [OF assms(1)] by simp
  then show "idx (row E' ! j) = idx (row E ! j)" "chars (row E' ! j) = chars (row E ! j)"
    "render (row E' ! j) = render (row E ! j)"
    by (simp_all add: text_of_def)
qed

lemma same_text_update:
  assumes "p < length (row E)" "text_of r' = text_of (row E ! p)"
  shows "same_text E (E\<lparr>row := (row E)[p := r']\<rparr>)"
proof -
  have "map text_of ((row E)[p := r']) = map text_of (row E)"
    using assms by (simp add: list_eq_iff_nth_eq nth_list_update)
  then show ?thesis by (simp add: same_text_def)
qed

lemma same_text_ge_pos:
  assumes "same_text E E'" "idx_ge_pos E"
  shows "idx_ge_pos E'"
  using assms same_text_length [OF assms(1)]
  by (simp add: idx_ge_pos_nth same_text_nth)

lemma hl_ok_nth: "hl_ok E \<longleftrightarrow> (\<forall>j < length (row E). hl_ok_at (row E ! j))"
  by (simp add: hl_ok_def list_all_length)

lemma update_syntax_total:
  assumes "idx_ge_pos E" "p < length (row E)" "d = nat (numrows E) - p"
  shows "\<exists>k out. editorUpdateSyntax p E = Some (k, out) \<and> k \<le> max 1 (nat (numrows E) - p)
           \<and> same_text E (state_of out) \<and> hl_ok_at (row (state_of out) ! p)
           \<and> (\<forall>j < length (row E). hl_ok_at (row E ! j) \<longrightarrow> hl_ok_at (row (state_of out) ! j))"
  using assms
proof (induction d arbitrary: p E rule: less_induct)
  case (less d)
  define r where "r = row E ! p"
  define h0 where "h0 = replicate (length (render r)) HL_NORMAL"
  define E0 where "E0 = E\<lparr>row := (row E)[p := r\<lparr>hl := h0\<rparr>]\<rparr>"
  have good0: "same_text E E0 \<and> hl_ok_at (row E0 ! p)
      \<and> (\<forall>j < length (row E). hl_ok_at (row E ! j) \<longrightarrow> hl_ok_at (row E0 ! j))"
  proof (intro conjI allI impI)
    show "same_text E E0"
      unfolding E0_def using less.prems(2) by (intro same_text_update) (simp_all add: text_of_def r_def)
    show "hl_ok_at (row E0 ! p)"
      using less.prems(2) by (simp add: E0_def hl_ok_at_def h0_def)
    fix j assume "j < length (row E)" "hl_ok_at (row E ! j)"
    then show "hl_ok_at (row E0 ! j)"
      by (cases "j = p") (simp_all add: E0_def hl_ok_at_def h0_def)
  qed
  show ?case
  proof (cases "cur_syntax E")
    case None
    then have "editorUpdateSyntax p E = Some (1, Ok E0)"
      unfolding E0_def h0_def r_def
      by (subst editorUpdateSyntax.simps) (simp only: Let_def option.case)
    then show ?thesis using good0 by simp
  next
    case (Some syn)
    define in0 where "in0 = (idx r > 0 \<and> hl_open_comment (row E0 ! nat (idx r - 1)))"
    define res where "res = scan_row syn (render r) 0 True (CHR 0x00) in0 h0"
    define E1 where "E1 = E\<lparr>row := (row E)[p := r\<lparr>hl := fst res, hl_open_comment := snd res\<rparr>]\<rparr>"
    define A where "A \<longleftrightarrow> idx r > 0 \<and> \<not> idx r - 1 < int (length (row E))"
    define B where "B \<longleftrightarrow> hl_open_comment r \<noteq> snd res \<and> idx r + 1 < numrows E"
    define D where "D \<longleftrightarrow> idx r + 1 < 0 \<or> \<not> idx r + 1 < int (length (row E))"
    have unfold: "editorUpdateSyntax p E =
       (if A then Some (1, OutOfBounds (idx r - 1) E0)
        else if B
             then (if D then Some (1, OutOfBounds (idx r + 1) E1)
                   else Option.bind (editorUpdateSyntax (nat (idx r + 1)) E1)
                          (\<lambda>(n, out). Some (Suc n, out)))
             else Some (1, Ok E1))"
      unfolding A_def B_def D_def E1_def res_def in0_def E0_def h0_def r_def
      by (subst editorUpdateSyntax.simps) (simp only: Let_def Some option.case)
    have lres: "length (fst res) = length (render r)"
      unfolding res_def by (intro scan_row_length) (simp add: h0_def)
    have good1: "same_text E E1 \<and> hl_ok_at (row E1 ! p)
        \<and> (\<forall>j < length (row E). hl_ok_at (row E ! j) \<longrightarrow> hl_ok_at (row E1 ! j))"
    proof (intro conjI allI impI)
      show "same_text E E1"
        unfolding E1_def using less.prems(2)
        by (intro same_text_update) (simp_all add: text_of_def r_def)
      show "hl_ok_at (row E1 ! p)"
        using less.prems(2) lres by (simp add: E1_def hl_ok_at_def)
      fix j assume "j < length (row E)" "hl_ok_at (row E ! j)"
      then show "hl_ok_at (row E1 ! j)"
        using lres by (cases "j = p") (simp_all add: E1_def hl_ok_at_def)
    qed
    show ?thesis
    proof (cases A)
      case True
      then show ?thesis using unfold good0 by simp
    next
      case f1: False
      show ?thesis
      proof (cases B)
        case False
        then show ?thesis using unfold f1 good1 by simp
      next
        case ch: True
        show ?thesis
        proof (cases D)
          case True
          then show ?thesis using unfold f1 ch good1 by simp
        next
          case inr: False
          define q where "q = nat (idx r + 1)"
          have pr: "int p \<le> idx r"
            using less.prems(1,2) by (simp add: idx_ge_pos_nth r_def)
          have q1: "p < q" "q < length (row E)" "q < nat (numrows E)"
            using pr inr ch by (simp_all add: q_def B_def D_def)
          have len1: "length (row E1) = length (row E)" "numrows E1 = numrows E"
            by (simp_all add: E1_def)
          have ge1: "idx_ge_pos E1"
            using good1 less.prems(1) same_text_ge_pos by blast
          have "\<exists>k out. editorUpdateSyntax q E1 = Some (k, out)
              \<and> k \<le> max 1 (nat (numrows E1) - q)
              \<and> same_text E1 (state_of out) \<and> hl_ok_at (row (state_of out) ! q)
              \<and> (\<forall>j < length (row E1). hl_ok_at (row E1 ! j) \<longrightarrow> hl_ok_at (row (state_of out) ! j))"
          proof (rule less.IH [of "nat (numrows E1) - q"])
            show "nat (numrows E1) - q < d" using q1 less.prems(3) len1 by simp
            show "idx_ge_pos E1" by (rule ge1)
            show "q < length (row E1)" using q1 len1 by simp
            show "nat (numrows E1) - q = nat (numrows E1) - q" by simp
          qed
          then obtain k out where k: "editorUpdateSyntax q E1 = Some (k, out)"
            "k \<le> max 1 (nat (numrows E1) - q)" "same_text E1 (state_of out)"
            "\<forall>j < length (row E1). hl_ok_at (row E1 ! j) \<longrightarrow> hl_ok_at (row (state_of out) ! j)"
            by blast
          have a: "editorUpdateSyntax p E = Some (Suc k, out)"
            using unfold f1 ch inr k(1) by (simp add: q_def)
          have b: "Suc k \<le> max 1 (nat (numrows E) - p)"
            using k(2) q1 len1 by simp
          have c: "same_text E (state_of out)"
            using good1 k(3) same_text_trans by blast
          have d: "hl_ok_at (row (state_of out) ! p)"
            using good1 k(4) less.prems(2) len1 by simp
          have e: "\<forall>j < length (row E). hl_ok_at (row E ! j) \<longrightarrow> hl_ok_at (row (state_of out) ! j)"
            using good1 k(4) len1 by simp
          show ?thesis using a b c d e by blast
        qed
      qed
    qed
  qed
qed

text \<open>Claim C9: \<^verbatim>\<open>editorUpdateSyntax\<close> returns on every document.  In a row array in which no slot
  carries an index below its position (which \<^verbatim>\<open>editorInsertRow\<close> and \<^verbatim>\<open>editorDelRow\<close> maintain),
  every recursive call is on a later slot inside the document, so the call on slot \<open>p\<close> returns
  after at most \<open>numrows - p\<close> calls (one call when \<open>p\<close> is the last row or beyond).\<close>

theorem C9_update_syntax_terminates:
  assumes "idx_ge_pos E" and "p < length (row E)"
  shows "\<exists>k out. editorUpdateSyntax p E = Some (k, out) \<and> k \<le> max 1 (nat (numrows E) - p)"
  using update_syntax_total [OF assms, of "nat (numrows E) - p"] by blast

theorem C9_update_syntax_terminates_witness:
  "\<exists>k out. editorUpdateSyntax 0 comment_doc = Some (k, out) \<and> k \<le> max 1 (nat (numrows comment_doc) - 0)"
proof -
  have "idx_ge_pos comment_doc" by code_simp
  moreover have "0 < length (row comment_doc)" by code_simp
  ultimately show ?thesis by (rule C9_update_syntax_terminates)
qed

section \<open>Well-formed row stores\<close>

lemma memmove_rows_length:
  assumes "dst + n \<le> length arr" "src + n \<le> length arr"
  shows "length (memmove_rows arr dst src n) = length arr"
  using assms by (simp add: memmove_rows_def)

lemma memmove_rows_nth:
  assumes "dst + n \<le> length arr" "src + n \<le> length arr" "j < length arr"
  shows "memmove_rows arr dst src n ! j
     = (if j < dst then arr ! j else if j < dst + n then arr ! (src + (j - dst)) else arr ! j)"
proof -
  have l1: "length (take dst arr) = dst" using assms(1) by simp
  have l2: "length (take n (drop src arr)) = n" using assms(2) by simp
  show ?thesis
  proof (cases "j < dst")
    case True
    then show ?thesis using l1 by (simp add: memmove_rows_def nth_append)
  next
    case f: False
    show ?thesis
    proof (cases "j < dst + n")
      case True
      then have "j - dst < n" using f by simp
      then show ?thesis
        using f True l1 l2 assms(2) by (simp add: memmove_rows_def nth_append)
    next
      case False
      then have "(take dst arr @ take n (drop src arr) @ drop (dst + n) arr) ! j
          = drop (dst + n) arr ! (j - dst - n)"
        using f l1 l2 by (simp add: nth_append)
      also have "\<dots> = arr ! j" using False assms(1,3) by simp
      finally show ?thesis using f False by (simp add: memmove_rows_def)
    qed
  qed
qed

lemma bump_idx_props:
  "length (state_of (bump_idx arr js)) = length arr
   \<and> (\<forall>j < length arr.
        idx (arr ! j) \<le> idx (state_of (bump_idx arr js) ! j)
        \<and> hl (state_of (bump_idx arr js) ! j) = hl (arr ! j)
        \<and> render (state_of (bump_idx arr js) ! j) = render (arr ! j))"
proof (induction js arbitrary: arr)
  case Nil
  then show ?case by simp
next
  case (Cons k js)
  show ?case
  proof (cases "k < length arr")
    case False
    then show ?thesis by simp
  next
    case True
    define arr1 where "arr1 = arr[k := (arr ! k)\<lparr>idx := idx (arr ! k) + 1\<rparr>]"
    have s: "bump_idx arr (k # js) = bump_idx arr1 js" using True by (simp add: arr1_def)
    have l: "length arr1 = length arr" by (simp add: arr1_def)
    have f: "\<And>j. j < length arr \<Longrightarrow> idx (arr ! j) \<le> idx (arr1 ! j) \<and> hl (arr1 ! j) = hl (arr ! j)
        \<and> render (arr1 ! j) = render (arr ! j)"
    proof -
      fix j assume "j < length arr"
      then show "idx (arr ! j) \<le> idx (arr1 ! j) \<and> hl (arr1 ! j) = hl (arr ! j)
        \<and> render (arr1 ! j) = render (arr ! j)"
        by (cases "j = k") (simp_all add: arr1_def)
    qed
    have ih: "length (state_of (bump_idx arr1 js)) = length arr1
      \<and> (\<forall>j < length arr1.
        idx (arr1 ! j) \<le> idx (state_of (bump_idx arr1 js) ! j)
        \<and> hl (state_of (bump_idx arr1 js) ! j) = hl (arr1 ! j)
        \<and> render (state_of (bump_idx arr1 js) ! j) = render (arr1 ! j))"
      by (rule Cons.IH)
    show ?thesis
      unfolding s
    proof (intro conjI allI impI)
      show "length (state_of (bump_idx arr1 js)) = length arr" using ih l by simp
    next
      fix j assume j: "j < length arr"
      have "idx (arr ! j) \<le> idx (arr1 ! j)" using f j by blast
      also have "\<dots> \<le> idx (state_of (bump_idx arr1 js) ! j)" using ih j l by simp
      finally show "idx (arr ! j) \<le> idx (state_of (bump_idx arr1 js) ! j)" .
      show "hl (state_of (bump_idx arr1 js) ! j) = hl (arr ! j)" using ih j l f by simp
      show "render (state_of (bump_idx arr1 js) ! j) = render (arr ! j)" using ih j l f by simp
    qed
  qed
qed

lemma bump_idx_upt:
  assumes "n \<le> length arr"
  shows "\<exists>arr'. bump_idx arr [a ..< n] = Ok arr' \<and> length arr' = length arr
     \<and> (\<forall>j < length arr. arr' ! j = (if a \<le> j \<and> j < n then (arr ! j)\<lparr>idx := idx (arr ! j) + 1\<rparr> else arr ! j))"
  using assms
proof (induction "n - a" arbitrary: a arr)
  case 0
  then show ?case by simp
next
  case (Suc d)
  then have an: "a < n" by simp
  define arr1 where "arr1 = arr[a := (arr ! a)\<lparr>idx := idx (arr ! a) + 1\<rparr>]"
  have s: "bump_idx arr [a ..< n] = bump_idx arr1 [Suc a ..< n]"
    using an Suc.prems by (simp add: upt_conv_Cons arr1_def)
  have l: "length arr1 = length arr" by (simp add: arr1_def)
  have "\<exists>arr'. bump_idx arr1 [Suc a ..< n] = Ok arr' \<and> length arr' = length arr1
     \<and> (\<forall>j < length arr1. arr' ! j = (if Suc a \<le> j \<and> j < n then (arr1 ! j)\<lparr>idx := idx (arr1 ! j) + 1\<rparr> else arr1 ! j))"
    using Suc.hyps(2) Suc.prems l by (intro Suc.hyps(1)) simp_all
  then obtain arr' where a': "bump_idx arr1 [Suc a ..< n] = Ok arr'" "length arr' = length arr1"
    "\<forall>j < length arr1. arr' ! j = (if Suc a \<le> j \<and> j < n then (arr1 ! j)\<lparr>idx := idx (arr1 ! j) + 1\<rparr> else arr1 ! j)"
    by blast
  have "\<forall>j < length arr. arr' ! j = (if a \<le> j \<and> j < n then (arr ! j)\<lparr>idx := idx (arr ! j) + 1\<rparr> else arr ! j)"
  proof (intro allI impI)
    fix j assume j: "j < length arr"
    show "arr' ! j = (if a \<le> j \<and> j < n then (arr ! j)\<lparr>idx := idx (arr ! j) + 1\<rparr> else arr ! j)"
    proof (cases "j = a")
      case True
      then show ?thesis using a'(3) j l an by (simp add: arr1_def)
    next
      case False
      then have "arr1 ! j = arr ! j" by (simp add: arr1_def)
      then show ?thesis using a'(3) j l False by auto
    qed
  qed
  then show ?case using s a'(1,2) l by simp
qed

lemma store_inv_nth:
  "store_inv E \<longleftrightarrow> 0 \<le> numrows E \<and> nat (numrows E) \<le> length (row E)
     \<and> (\<forall>j < length (row E). int j \<le> idx (row E ! j) \<and> hl_ok_at (row E ! j))"
  by (auto simp: store_inv_def idx_ge_pos_nth hl_ok_nth)

lemma store_inv_fields:
  "store_inv (E\<lparr>dirty := d\<rparr>) = store_inv E"
  "store_inv (E\<lparr>cx := x\<rparr>) = store_inv E"
  "store_inv (E\<lparr>cy := y\<rparr>) = store_inv E"
  "store_inv (E\<lparr>rowoff := ro\<rparr>) = store_inv E"
  "store_inv (E\<lparr>cur_syntax := sy\<rparr>) = store_inv E"
  "store_inv (E\<lparr>filename := fn\<rparr>) = store_inv E"
  by (simp_all add: store_inv_nth)

lemma store_inv_chars:
  assumes "store_inv E"
  shows "store_inv (E\<lparr>row := (row E)[p := (row E ! p)\<lparr>chars := cs\<rparr>]\<rparr>)"
proof -
  have "\<forall>j < length (row E). int j \<le> idx (((row E)[p := (row E ! p)\<lparr>chars := cs\<rparr>]) ! j)
      \<and> hl_ok_at (((row E)[p := (row E ! p)\<lparr>chars := cs\<rparr>]) ! j)"
  proof (intro allI impI)
    fix j assume j: "j < length (row E)"
    then have "int j \<le> idx (row E ! j) \<and> hl_ok_at (row E ! j)"
      using assms by (simp add: store_inv_nth)
    then show "int j \<le> idx (((row E)[p := (row E ! p)\<lparr>chars := cs\<rparr>]) ! j)
      \<and> hl_ok_at (((row E)[p := (row E ! p)\<lparr>chars := cs\<rparr>]) ! j)"
      using j by (cases "j = p") (simp_all add: hl_ok_at_def)
  qed
  then show ?thesis using assms by (simp add: store_inv_nth)
qed

lemma realloc_rows_props:
  assumes "n \<le> length rows"
  shows "length (realloc_rows rows (n + 1)) = n + 1"
    and "\<And>j. j < n \<Longrightarrow> realloc_rows rows (n + 1) ! j = rows ! j"
proof -
  show "length (realloc_rows rows (n + 1)) = n + 1"
    using assms by (simp add: realloc_rows_def)
  fix j assume "j < n"
  then show "realloc_rows rows (n + 1) ! j = rows ! j"
    using assms by (simp add: realloc_rows_def nth_append)
qed

lemma init_inv: "store_inv (initEditor rows cols)"
  by (simp add: store_inv_nth initEditor_def)

lemma strstr_from_bound:
  assumes "strstr_from h nd k = Some off"
  shows "off + length nd \<le> k + length h"
  using assms
proof (induction h arbitrary: k)
  case Nil
  then show ?case by (simp split: if_split_asm)
next
  case (Cons c cs)
  show ?case
  proof (cases "take (length nd) (c # cs) = nd")
    case True
    then have "length (take (length nd) (c # cs)) = length nd" by simp
    then have "length nd \<le> length (c # cs)" by (simp only: length_take)
    moreover have "off = k" using Cons.prems True by simp
    ultimately show ?thesis by simp
  next
    case False
    then have "strstr_from cs nd (Suc k) = Some off" using Cons.prems by simp
    then have "off + length nd \<le> Suc k + length cs" by (rule Cons.IH)
    then show ?thesis by simp
  qed
qed

lemma strstr_bound:
  assumes "strstr hay nd = Some off"
  shows "off + length (c_str nd) \<le> length hay"
proof -
  have "off + length (c_str nd) \<le> 0 + length (c_str hay)"
    using assms unfolding strstr_def by (rule strstr_from_bound)
  moreover have "length (c_str hay) \<le> length hay"
    unfolding c_str_def by (rule length_takeWhile_le)
  ultimately show ?thesis by simp
qed

lemma find_key_update_saved: "saved_hl (find_key_update key F) = saved_hl F"
  using find_key_update_cases [of key F] by auto

lemma memcpy_hl_length:
  assumes "length src = n" "length dst = n"
  shows "length (memcpy_hl dst src n) = n"
  using assms by (simp add: memcpy_hl_def)

lemma store_inv_hl_update:
  assumes "store_inv E" "length h' = length (render (row E ! l))"
  shows "store_inv (E\<lparr>row := (row E)[l := (row E ! l)\<lparr>hl := h'\<rparr>]\<rparr>)"
proof -
  have "\<forall>j < length (row E). int j \<le> idx (((row E)[l := (row E ! l)\<lparr>hl := h'\<rparr>]) ! j)
      \<and> hl_ok_at (((row E)[l := (row E ! l)\<lparr>hl := h'\<rparr>]) ! j)"
  proof (intro allI impI)
    fix j assume j: "j < length (row E)"
    then have "int j \<le> idx (row E ! j) \<and> hl_ok_at (row E ! j)"
      using assms(1) by (simp add: store_inv_nth)
    then show "int j \<le> idx (((row E)[l := (row E ! l)\<lparr>hl := h'\<rparr>]) ! j)
      \<and> hl_ok_at (((row E)[l := (row E ! l)\<lparr>hl := h'\<rparr>]) ! j)"
      using j assms(2) by (cases "j = l") (simp_all add: hl_ok_at_def)
  qed
  then show ?thesis using assms(1) by (simp add: store_inv_nth)
qed

lemma restore_inv:
  assumes "store_inv E" "saved_ok F E"
  shows "restore_saved_hl (F, E) = Ok (F\<lparr>saved_hl := None\<rparr>, E\<lparr>row := restored_rows F E\<rparr>)
    \<and> store_inv (E\<lparr>row := restored_rows F E\<rparr>)"
proof -
  have "saved_hl F \<noteq> None \<longrightarrow> 0 \<le> saved_hl_line F \<and> saved_hl_line F < int (length (row E))"
    using assms(2) by (auto simp: saved_ok_def)
  then have a: "restore_saved_hl (F, E) = Ok (F\<lparr>saved_hl := None\<rparr>, E\<lparr>row := restored_rows F E\<rparr>)"
    by (rule restore_saved_hl_ok)
  have b: "store_inv (E\<lparr>row := restored_rows F E\<rparr>)"
  proof (cases "saved_hl F")
    case None
    then show ?thesis using assms(1) by (simp add: restored_rows_def)
  next
    case (Some sv)
    define l where "l = nat (saved_hl_line F)"
    have sv: "l < length (row E)" "length sv = length (render (row E ! l))"
      using assms(2) Some by (simp_all add: saved_ok_def l_def nat_less_iff)
    have "hl_ok_at (row E ! l)" using assms(1) sv(1) by (simp add: store_inv_nth)
    then have "length (memcpy_hl (hl (row E ! l)) sv (length (render (row E ! l))))
        = length (render (row E ! l))"
      using sv(2) by (intro memcpy_hl_length) (simp_all add: hl_ok_at_def)
    then have "store_inv (E\<lparr>row := (row E)[l := (row E ! l)\<lparr>hl :=
        memcpy_hl (hl (row E ! l)) sv (length (render (row E ! l)))\<rparr>]\<rparr>)"
      by (rule store_inv_hl_update [OF assms(1)])
    then show ?thesis using Some by (simp add: restored_rows_def l_def)
  qed
  show ?thesis using a b by simp
qed

lemma store_inv_document_rows:
  assumes "store_inv E" "j < nat (numrows E)"
  shows "int (length (hl (row E ! j))) = rsize (row E ! j)"
proof -
  have "j < length (row E)" using assms by (simp add: store_inv_nth)
  then have "hl_ok_at (row E ! j)" using assms(1) by (simp add: store_inv_nth)
  then show ?thesis by (simp add: hl_ok_at_def)
qed

section \<open>Every operation keeps the highlight arrays as long as the display texts\<close>

lemma nat_less_length:
  assumes "0 \<le> (j::int)" "j < int n"
  shows "nat j < n"
  using assms by linarith

lemma bump_idx_cont_props:
  "length (bump_idx_cont arr js) = length arr
   \<and> (\<forall>j < length arr.
        idx (arr ! j) \<le> idx (bump_idx_cont arr js ! j)
        \<and> hl (bump_idx_cont arr js ! j) = hl (arr ! j)
        \<and> render (bump_idx_cont arr js ! j) = render (arr ! j))"
proof (induction js arbitrary: arr)
  case Nil
  then show ?case by simp
next
  case (Cons k js)
  define arr1 where "arr1 = (if k < length arr then arr[k := (arr ! k)\<lparr>idx := idx (arr ! k) + 1\<rparr>] else arr)"
  have s: "bump_idx_cont arr (k # js) = bump_idx_cont arr1 js" by (simp add: arr1_def)
  have l: "length arr1 = length arr" by (simp add: arr1_def)
  have f: "\<And>j. j < length arr \<Longrightarrow> idx (arr ! j) \<le> idx (arr1 ! j) \<and> hl (arr1 ! j) = hl (arr ! j)
      \<and> render (arr1 ! j) = render (arr ! j)"
  proof -
    fix j assume "j < length arr"
    then show "idx (arr ! j) \<le> idx (arr1 ! j) \<and> hl (arr1 ! j) = hl (arr ! j)
      \<and> render (arr1 ! j) = render (arr ! j)"
      by (cases "j = k") (simp_all add: arr1_def)
  qed
  have ih: "length (bump_idx_cont arr1 js) = length arr1
    \<and> (\<forall>j < length arr1.
      idx (arr1 ! j) \<le> idx (bump_idx_cont arr1 js ! j)
      \<and> hl (bump_idx_cont arr1 js ! j) = hl (arr1 ! j)
      \<and> render (bump_idx_cont arr1 js ! j) = render (arr1 ! j))"
    by (rule Cons.IH)
  show ?case
    unfolding s
  proof (intro conjI allI impI)
    show "length (bump_idx_cont arr1 js) = length arr" using ih l by simp
  next
    fix j assume j: "j < length arr"
    have "idx (arr ! j) \<le> idx (arr1 ! j)" using f j by blast
    also have "\<dots> \<le> idx (bump_idx_cont arr1 js ! j)" using ih j l by simp
    finally show "idx (arr ! j) \<le> idx (bump_idx_cont arr1 js ! j)" .
    show "hl (bump_idx_cont arr1 js ! j) = hl (arr ! j)" using ih j l f by simp
    show "render (bump_idx_cont arr1 js ! j) = render (arr ! j)" using ih j l f by simp
  qed
qed

lemma bump_idx_cont_upt:
  assumes "n \<le> length arr"
  shows "length (bump_idx_cont arr [a ..< n]) = length arr
     \<and> (\<forall>j < length arr. bump_idx_cont arr [a ..< n] ! j
           = (if a \<le> j \<and> j < n then (arr ! j)\<lparr>idx := idx (arr ! j) + 1\<rparr> else arr ! j))"
proof -
  obtain arr' where b: "bump_idx arr [a ..< n] = Ok arr'" "length arr' = length arr"
    "\<forall>j < length arr. arr' ! j = (if a \<le> j \<and> j < n then (arr ! j)\<lparr>idx := idx (arr ! j) + 1\<rparr> else arr ! j)"
    using bump_idx_upt [OF assms, of a] by blast
  have "\<And>js arr arr'. bump_idx arr js = Ok arr' \<Longrightarrow> bump_idx_cont arr js = arr'"
  proof -
    fix js :: "nat list" and arr arr' :: "erow list"
    show "bump_idx arr js = Ok arr' \<Longrightarrow> bump_idx_cont arr js = arr'"
    proof (induction js arbitrary: arr)
      case Nil
      then show ?case by simp
    next
      case (Cons k js)
      then show ?case by (cases "k < length arr") simp_all
    qed
  qed
  then have "bump_idx_cont arr [a ..< n] = arr'" using b(1) by blast
  then show ?thesis using b by simp
qed

lemma update_syntax_cont_ok:
  assumes "idx_ge_pos E" "nat (numrows E) \<le> length (row E)" "p < length (row E)"
    and "d = nat (numrows E) - p"
  shows "\<exists>E'. editorUpdateSyntax_cont g p E = Some (Ok E') \<and> same_text E E'
           \<and> hl_ok_at (row E' ! p)
           \<and> (\<forall>j < length (row E). hl_ok_at (row E ! j) \<longrightarrow> hl_ok_at (row E' ! j))"
  using assms
proof (induction d arbitrary: p E rule: less_induct)
  case (less d)
  define r where "r = row E ! p"
  define h0 where "h0 = replicate (length (render r)) HL_NORMAL"
  define E0 where "E0 = E\<lparr>row := (row E)[p := r\<lparr>hl := h0\<rparr>]\<rparr>"
  have good0: "same_text E E0 \<and> hl_ok_at (row E0 ! p)
      \<and> (\<forall>j < length (row E). hl_ok_at (row E ! j) \<longrightarrow> hl_ok_at (row E0 ! j))"
  proof (intro conjI allI impI)
    show "same_text E E0"
      unfolding E0_def using less.prems(3) by (intro same_text_update) (simp_all add: text_of_def r_def)
    show "hl_ok_at (row E0 ! p)"
      using less.prems(3) by (simp add: E0_def hl_ok_at_def h0_def)
    fix j assume "j < length (row E)" "hl_ok_at (row E ! j)"
    then show "hl_ok_at (row E0 ! j)"
      by (cases "j = p") (simp_all add: E0_def hl_ok_at_def h0_def)
  qed
  show ?case
  proof (cases "cur_syntax E")
    case None
    then have "editorUpdateSyntax_cont g p E = Some (Ok E0)"
      unfolding E0_def h0_def r_def
      by (subst editorUpdateSyntax_cont.simps) (simp only: Let_def option.case)
    then show ?thesis using good0 by simp
  next
    case (Some syn)
    define in0 where "in0 = (idx r > 0
                    \<and> (if idx r - 1 < int (length (row E))
                        then hl_open_comment (row E0 ! nat (idx r - 1))
                        else g (idx r - 1)))"
    define res where "res = scan_row syn (render r) 0 True (CHR 0x00) in0 h0"
    define E1 where "E1 = E\<lparr>row := (row E)[p := r\<lparr>hl := fst res, hl_open_comment := snd res\<rparr>]\<rparr>"
    define B where "B \<longleftrightarrow> hl_open_comment r \<noteq> snd res \<and> idx r + 1 < numrows E"
    define D where "D \<longleftrightarrow> idx r + 1 < 0 \<or> \<not> idx r + 1 < int (length (row E))"
    have unfold: "editorUpdateSyntax_cont g p E =
       (if B
        then (if D then Some (OutOfBounds (idx r + 1) E1)
              else editorUpdateSyntax_cont g (nat (idx r + 1)) E1)
        else Some (Ok E1))"
      unfolding B_def D_def E1_def res_def in0_def E0_def h0_def r_def
      by (subst editorUpdateSyntax_cont.simps) (simp only: Let_def Some option.case)
    have lres: "length (fst res) = length (render r)"
      unfolding res_def by (intro scan_row_length) (simp add: h0_def)
    have good1: "same_text E E1 \<and> hl_ok_at (row E1 ! p)
        \<and> (\<forall>j < length (row E). hl_ok_at (row E ! j) \<longrightarrow> hl_ok_at (row E1 ! j))"
    proof (intro conjI allI impI)
      show "same_text E E1"
        unfolding E1_def using less.prems(3)
        by (intro same_text_update) (simp_all add: text_of_def r_def)
      show "hl_ok_at (row E1 ! p)"
        using less.prems(3) lres by (simp add: E1_def hl_ok_at_def)
      fix j assume "j < length (row E)" "hl_ok_at (row E ! j)"
      then show "hl_ok_at (row E1 ! j)"
        using lres by (cases "j = p") (simp_all add: E1_def hl_ok_at_def)
    qed
    show ?thesis
    proof (cases B)
      case False
      then show ?thesis using unfold good1 by simp
    next
      case ch: True
      define q where "q = nat (idx r + 1)"
      have pr: "int p \<le> idx r"
        using less.prems(1,3) by (simp add: idx_ge_pos_nth r_def)
      have q1: "p < q" "q < nat (numrows E)"
        using pr ch by (simp_all add: q_def B_def)
      then have q2: "q < length (row E)" using less.prems(2) by simp
      have nd: "\<not> D" using pr q2 by (simp add: D_def q_def)
      have len1: "length (row E1) = length (row E)" "numrows E1 = numrows E"
        by (simp_all add: E1_def)
      have ge1: "idx_ge_pos E1"
        using good1 less.prems(1) same_text_ge_pos by blast
      have "\<exists>E'. editorUpdateSyntax_cont g q E1 = Some (Ok E') \<and> same_text E1 E'
              \<and> hl_ok_at (row E' ! q)
              \<and> (\<forall>j < length (row E1). hl_ok_at (row E1 ! j) \<longrightarrow> hl_ok_at (row E' ! j))"
      proof (rule less.IH [of "nat (numrows E1) - q"])
        show "nat (numrows E1) - q < d" using q1 less.prems(4) len1 by simp
        show "idx_ge_pos E1" by (rule ge1)
        show "nat (numrows E1) \<le> length (row E1)" using less.prems(2) len1 by simp
        show "q < length (row E1)" using q2 len1 by simp
        show "nat (numrows E1) - q = nat (numrows E1) - q" by simp
      qed
      then obtain E' where k: "editorUpdateSyntax_cont g q E1 = Some (Ok E')"
        "same_text E1 E'"
        "\<forall>j < length (row E1). hl_ok_at (row E1 ! j) \<longrightarrow> hl_ok_at (row E' ! j)"
        by blast
      have a: "editorUpdateSyntax_cont g p E = Some (Ok E')"
        using unfold ch nd k(1) by (simp add: q_def)
      have c: "same_text E E'"
        using good1 k(2) same_text_trans by blast
      have d: "hl_ok_at (row E' ! p)"
        using good1 k(3) less.prems(3) len1 by simp
      have e: "\<forall>j < length (row E). hl_ok_at (row E ! j) \<longrightarrow> hl_ok_at (row E' ! j)"
        using good1 k(3) len1 by simp
      show ?thesis using a c d e by blast
    qed
  qed
qed

lemma update_syntax_cont_inv:
  assumes "0 \<le> numrows E" "nat (numrows E) \<le> length (row E)" "p < length (row E)"
    and "\<forall>j < length (row E). int j \<le> idx (row E ! j) \<and> (j \<noteq> p \<longrightarrow> hl_ok_at (row E ! j))"
  shows "\<exists>E'. editorUpdateSyntax_cont g p E = Some (Ok E') \<and> kept E E'"
proof -
  have ge: "idx_ge_pos E" using assms(4) by (simp add: idx_ge_pos_nth)
  obtain E' where o: "editorUpdateSyntax_cont g p E = Some (Ok E')" "same_text E E'"
    "hl_ok_at (row E' ! p)"
    "\<forall>j < length (row E). hl_ok_at (row E ! j) \<longrightarrow> hl_ok_at (row E' ! j)"
    using update_syntax_cont_ok [OF ge assms(2,3), of "nat (numrows E) - p" g] by blast
  have l: "length (row E') = length (row E)" "numrows E' = numrows E" "cx E' = cx E" "cy E' = cy E"
    using o(2) same_text_length same_text_fields(1,3,4) by blast+
  have "\<forall>j < length (row E'). int j \<le> idx (row E' ! j) \<and> hl_ok_at (row E' ! j)"
  proof (intro allI impI)
    fix j assume "j < length (row E')"
    then have j: "j < length (row E)" using l by simp
    have "idx (row E' ! j) = idx (row E ! j)" using same_text_nth(1) [OF o(2) j] .
    moreover have "hl_ok_at (row E' ! j)"
      using o(3,4) assms(4) j by (cases "j = p") simp_all
    ultimately show "int j \<le> idx (row E' ! j) \<and> hl_ok_at (row E' ! j)"
      using assms(4) j by simp
  qed
  then have "store_inv E'" using assms(1,2) l by (simp add: store_inv_nth)
  then show ?thesis using o(1) l by (simp add: kept_def)
qed

lemma kept_refl: "store_inv E \<Longrightarrow> kept E E"
  by (simp add: kept_def)

lemma kept_trans: "kept E E1 \<Longrightarrow> kept E1 E2 \<Longrightarrow> kept E E2"
  by (simp add: kept_def)

lemma update_row_cont_inv:
  assumes "store_inv E" "p < length (row E)"
  shows "\<exists>E'. editorUpdateRow_cont g p E = Some (Ok E') \<and> kept E E'"
proof -
  define Er where "Er = E\<lparr>row := (row E)[p := (row E ! p)\<lparr>render := expand_tabs [] (chars (row E ! p))\<rparr>]\<rparr>"
  have l: "length (row Er) = length (row E)" "numrows Er = numrows E" "cx Er = cx E" "cy Er = cy E"
    by (simp_all add: Er_def)
  have "\<forall>j < length (row Er). int j \<le> idx (row Er ! j) \<and> (j \<noteq> p \<longrightarrow> hl_ok_at (row Er ! j))"
  proof (intro allI impI)
    fix j assume "j < length (row Er)"
    then have j: "j < length (row E)" using l by simp
    then have "int j \<le> idx (row E ! j) \<and> hl_ok_at (row E ! j)"
      using assms(1) by (simp add: store_inv_nth)
    then show "int j \<le> idx (row Er ! j) \<and> (j \<noteq> p \<longrightarrow> hl_ok_at (row Er ! j))"
      using j by (cases "j = p") (simp_all add: Er_def)
  qed
  then have "\<exists>E'. editorUpdateSyntax_cont g p Er = Some (Ok E') \<and> kept Er E'"
    using assms l by (intro update_syntax_cont_inv) (simp_all add: store_inv_nth)
  then show ?thesis using l by (simp add: editorUpdateRow_cont_def Er_def kept_def)
qed

lemma chars_then_update_row_cont_inv:
  assumes "store_inv E" "p < length (row E)"
  shows "\<exists>E'. editorUpdateRow_cont g p (E\<lparr>row := (row E)[p := (row E ! p)\<lparr>chars := cs\<rparr>]\<rparr>)
           = Some (Ok E') \<and> kept E E'"
proof -
  define Ec where "Ec = E\<lparr>row := (row E)[p := (row E ! p)\<lparr>chars := cs\<rparr>]\<rparr>"
  have s: "store_inv Ec" unfolding Ec_def by (rule store_inv_chars [OF assms(1)])
  have p: "p < length (row Ec)" using assms(2) by (simp add: Ec_def)
  obtain E' where e: "editorUpdateRow_cont g p Ec = Some (Ok E')" "kept Ec E'"
    using update_row_cont_inv [OF s p] by blast
  have "kept E E'" using e(2) by (simp add: kept_def Ec_def)
  then show ?thesis using e(1) by (simp add: Ec_def)
qed

lemma kept_dirty:
  assumes "kept E E1"
  shows "kept E (E1\<lparr>dirty := d\<rparr>)"
  using assms by (simp add: kept_def store_inv_fields)

lemma row_insert_char_cont_inv:
  assumes "store_inv E" "p < length (row E)"
  shows "\<exists>E'. editorRowInsertChar_cont g p at c E = Some (Ok E') \<and> kept E E'"
proof -
  define a where "a = (if at < 0 \<or> at > size_of (row E ! p) then length (chars (row E ! p)) else nat at)"
  obtain E1 where e: "editorUpdateRow_cont g p
      (E\<lparr>row := (row E)[p := (row E ! p)\<lparr>chars := take a (chars (row E ! p)) @ c # drop a (chars (row E ! p))\<rparr>]\<rparr>)
       = Some (Ok E1)" "kept E E1"
    using chars_then_update_row_cont_inv [OF assms] by blast
  have "editorRowInsertChar_cont g p at c E = Some (Ok (E1\<lparr>dirty := dirty E1 + 1\<rparr>))"
    unfolding editorRowInsertChar_cont_def Let_def a_def [symmetric] e(1) by simp
  then show ?thesis using kept_dirty [OF e(2)] by blast
qed

lemma row_append_string_cont_inv:
  assumes "store_inv E" "p < length (row E)"
  shows "\<exists>E'. editorRowAppendString_cont g p s E = Some (Ok E') \<and> kept E E'"
proof -
  obtain E1 where e: "editorUpdateRow_cont g p
      (E\<lparr>row := (row E)[p := (row E ! p)\<lparr>chars := chars (row E ! p) @ s\<rparr>]\<rparr>) = Some (Ok E1)"
      "kept E E1"
    using chars_then_update_row_cont_inv [OF assms] by blast
  have "editorRowAppendString_cont g p s E = Some (Ok (E1\<lparr>dirty := dirty E1 + 1\<rparr>))"
    unfolding editorRowAppendString_cont_def e(1) by simp
  then show ?thesis using kept_dirty [OF e(2)] by blast
qed

lemma row_del_char_cont_inv:
  assumes "store_inv E" "p < length (row E)"
  shows "\<exists>E'. editorRowDelChar_cont g p at E = Some (Ok E') \<and> kept E E'"
proof (cases "at < 0 \<or> at \<ge> size_of (row E ! p)")
  case True
  then have "editorRowDelChar_cont g p at E = Some (Ok E)"
    unfolding editorRowDelChar_cont_def Let_def by (simp only: if_P)
  then show ?thesis using kept_refl [OF assms(1)] by blast
next
  case False
  obtain E1 where e: "editorUpdateRow_cont g p
      (E\<lparr>row := (row E)[p := (row E ! p)\<lparr>chars := take (nat at) (chars (row E ! p))
            @ drop (nat at + 1) (chars (row E ! p))\<rparr>]\<rparr>) = Some (Ok E1)" "kept E E1"
    using chars_then_update_row_cont_inv [OF assms] by blast
  have "editorRowDelChar_cont g p at E = Some (Ok (E1\<lparr>dirty := dirty E1 + 1\<rparr>))"
    unfolding editorRowDelChar_cont_def Let_def by (simp only: if_not_P [OF False] e(1) and_then.simps)
  then show ?thesis using kept_dirty [OF e(2)] by blast
qed

lemma insert_row_cont_inv:
  assumes "store_inv E"
  shows "\<exists>E'. editorInsertRow_cont g at s E = Some (Ok E') \<and> store_inv E'
     \<and> cx E' = cx E \<and> cy E' = cy E
     \<and> numrows E' = (if at < 0 \<or> at > numrows E then numrows E else numrows E + 1)"
proof (cases "at < 0 \<or> at > numrows E")
  case True
  then have "editorInsertRow_cont g at s E = Some (Ok E)"
    unfolding editorInsertRow_cont_def by (simp only: if_P)
  then show ?thesis using assms True by simp
next
  case False
  define n where "n = nat (numrows E)"
  define a where "a = nat at"
  define arr0 where "arr0 = realloc_rows (row E) (n + 1)"
  define arr where "arr = memmove_rows arr0 (a + 1) a (n - a)"
  define arr' where "arr' = bump_idx_cont arr [a + 1 ..< n + 1]"
  define new where "new = \<lparr>idx = at, chars = s, render = [], hl = [], hl_open_comment = False\<rparr>"
  have an: "a \<le> n" "at = int a" "numrows E = int n" using False by (auto simp: a_def n_def)
  have nl: "n \<le> length (row E)" using assms by (simp add: store_inv_nth n_def)
  have inv: "\<And>j. j < length (row E) \<Longrightarrow> int j \<le> idx (row E ! j) \<and> hl_ok_at (row E ! j)"
    using assms by (simp add: store_inv_nth)
  have l0: "length arr0 = n + 1" unfolding arr0_def using nl by (rule realloc_rows_props(1))
  have n0: "\<And>j. j < n \<Longrightarrow> arr0 ! j = row E ! j"
    unfolding arr0_def using nl by (rule realloc_rows_props(2))
  have l1: "length arr = n + 1"
    unfolding arr_def using an l0 by (simp add: memmove_rows_length)
  have n1: "\<And>j. j < n + 1 \<Longrightarrow> arr ! j = (if j < a + 1 then arr0 ! j else arr0 ! (j - 1))"
  proof -
    fix j assume j: "j < n + 1"
    have "arr ! j = (if j < a + 1 then arr0 ! j
                     else if j < a + 1 + (n - a) then arr0 ! (a + (j - (a + 1))) else arr0 ! j)"
      unfolding arr_def using an l0 j by (intro memmove_rows_nth) simp_all
    then show "arr ! j = (if j < a + 1 then arr0 ! j else arr0 ! (j - 1))"
      using j an by auto
  qed
  have b: "length arr' = length arr"
    "\<forall>j < length arr. arr' ! j
        = (if a + 1 \<le> j \<and> j < n + 1 then (arr ! j)\<lparr>idx := idx (arr ! j) + 1\<rparr> else arr ! j)"
    using bump_idx_cont_upt [of "n + 1" arr "a + 1"] l1 by (simp_all add: arr'_def)
  define Ef where "Ef = E\<lparr>row := arr'[a := new]\<rparr>"
  have lf: "length (row Ef) = n + 1" "numrows Ef = int n" "cx Ef = cx E" "cy Ef = cy E"
    using b(1) l1 an by (simp_all add: Ef_def)
  have "\<forall>j < length (row Ef). int j \<le> idx (row Ef ! j) \<and> hl_ok_at (row Ef ! j)"
  proof (intro allI impI)
    fix j assume "j < length (row Ef)"
    then have j: "j < n + 1" using lf by simp
    consider "j < a" | "j = a" | "a < j" by linarith
    then show "int j \<le> idx (row Ef ! j) \<and> hl_ok_at (row Ef ! j)"
    proof cases
      case 1
      then have "row Ef ! j = row E ! j"
        using j b(2) l1 n1 [OF j] n0 [of j] an by (simp add: Ef_def)
      then show ?thesis using inv [of j] 1 an nl by simp
    next
      case 2
      then have "row Ef ! j = new" using j b(1) l1 by (simp add: Ef_def)
      then show ?thesis using 2 an by (simp add: new_def hl_ok_at_def)
    next
      case 3
      then have j1: "j - 1 < n" using j by simp
      have "row Ef ! j = (row E ! (j - 1))\<lparr>idx := idx (row E ! (j - 1)) + 1\<rparr>"
        using 3 j b(2) l1 n1 [OF j] n0 [OF j1] by (simp add: Ef_def)
      then show ?thesis using inv [of "j - 1"] j1 nl 3 by (simp add: hl_ok_at_def)
    qed
  qed
  then have sf: "store_inv Ef" using lf by (simp add: store_inv_nth)
  have af: "a < length (row Ef)" using lf an by simp
  obtain E1 where u: "editorUpdateRow_cont g a Ef = Some (Ok E1)" "kept Ef E1"
    using update_row_cont_inv [OF sf af] by blast
  have e: "editorInsertRow_cont g at s E
      = Some (Ok (E1\<lparr>numrows := numrows E1 + 1, dirty := dirty E1 + 1\<rparr>))"
    unfolding editorInsertRow_cont_def Let_def
    by (simp only: if_not_P [OF False] n_def [symmetric] a_def [symmetric]
        arr0_def [symmetric] arr_def [symmetric] arr'_def [symmetric] new_def [symmetric]
        Ef_def [symmetric] u(1) and_then.simps)
  have "store_inv (E1\<lparr>numrows := numrows E1 + 1, dirty := dirty E1 + 1\<rparr>)"
    using u(2) lf by (simp add: kept_def store_inv_nth)
  then show ?thesis using e u(2) lf an False by (simp add: kept_def)
qed

lemma del_row_cont_inv:
  assumes "store_inv E"
  shows "\<exists>E'. editorDelRow_cont at E = Some (Ok E') \<and> store_inv E'
     \<and> cx E' = cx E \<and> cy E' = cy E
     \<and> numrows E' = (if at < 0 \<or> at \<ge> numrows E then numrows E else numrows E - 1)"
proof (cases "at < 0 \<or> at \<ge> numrows E")
  case True
  then have "editorDelRow_cont at E = Some (Ok E)"
    unfolding editorDelRow_cont_def by (simp only: if_P)
  then show ?thesis using assms True by simp
next
  case False
  define n where "n = nat (numrows E)"
  define a where "a = nat at"
  define arr where "arr = memmove_rows (row E) a (a + 1) (n - a - 1)"
  define arr' where "arr' = bump_idx_cont arr [a + 1 ..< n + 1]"
  have an: "a < n" "numrows E = int n" using False by (simp_all add: a_def n_def)
  have nl: "n \<le> length (row E)" using assms by (simp add: store_inv_nth n_def)
  have inv: "\<And>j. j < length (row E) \<Longrightarrow> int j \<le> idx (row E ! j) \<and> hl_ok_at (row E ! j)"
    using assms by (simp add: store_inv_nth)
  have l1: "length arr = length (row E)"
    unfolding arr_def using an nl by (intro memmove_rows_length) simp_all
  have n1: "\<And>j. j < length (row E) \<Longrightarrow> int j \<le> idx (arr ! j) \<and> hl_ok_at (arr ! j)"
  proof -
    fix j assume j: "j < length (row E)"
    have e: "arr ! j = (if j < a then row E ! j
                     else if j < a + (n - a - 1) then row E ! (a + 1 + (j - a)) else row E ! j)"
      unfolding arr_def using an nl j by (intro memmove_rows_nth) simp_all
    show "int j \<le> idx (arr ! j) \<and> hl_ok_at (arr ! j)"
    proof (cases "a \<le> j \<and> j < a + (n - a - 1)")
      case True
      then have "arr ! j = row E ! (j + 1)" using e by simp
      moreover have "j + 1 < length (row E)" using True an nl by linarith
      ultimately show ?thesis using inv [of "j + 1"] by simp
    next
      case False
      then have "arr ! j = row E ! j" using e by auto
      then show ?thesis using inv [OF j] by simp
    qed
  qed
  note bp = bump_idx_cont_props [of arr "[a + 1 ..< n + 1]", folded arr'_def]
  have l2: "length arr' = length (row E)" using bp l1 by simp
  have n2: "\<forall>j < length arr'. int j \<le> idx (arr' ! j) \<and> hl_ok_at (arr' ! j)"
  proof (intro allI impI)
    fix j assume "j < length arr'"
    then have j: "j < length (row E)" using l2 by simp
    then have "idx (arr ! j) \<le> idx (arr' ! j)" "hl (arr' ! j) = hl (arr ! j)"
      "render (arr' ! j) = render (arr ! j)"
      using bp l1 by simp_all
    then show "int j \<le> idx (arr' ! j) \<and> hl_ok_at (arr' ! j)"
      using n1 [OF j] by (simp add: hl_ok_at_def)
  qed
  have s2: "store_inv (E\<lparr>row := arr', numrows := numrows E - 1, dirty := dirty E + 1\<rparr>)"
    using n2 l2 an nl by (simp add: store_inv_nth)
  have "editorDelRow_cont at E
      = Some (Ok (E\<lparr>row := arr', numrows := numrows E - 1, dirty := dirty E + 1\<rparr>))"
    unfolding editorDelRow_cont_def Let_def
    by (simp only: if_not_P [OF False] n_def [symmetric] a_def [symmetric]
        arr_def [symmetric] arr'_def [symmetric])
  then show ?thesis using s2 False by simp
qed

lemma at_slot_in:
  assumes "0 \<le> j" "j < int (length (row E))"
  shows "at_slot j E f = f (nat j)"
  using assms by (simp add: at_slot_def)

lemma store_inv_rows:
  assumes "store_inv E"
  shows "0 \<le> numrows E" "numrows E \<le> int (length (row E))"
proof -
  show "0 \<le> numrows E" using assms by (simp add: store_inv_nth)
  have "nat (numrows E) \<le> length (row E)" using assms by (simp add: store_inv_nth)
  then show "numrows E \<le> int (length (row E))" by linarith
qed

lemma insert_char_cont_inv:
  assumes "store_inv E" "cur_ok E"
  shows "\<exists>E'. editorInsertChar_cont g c E = Some (Ok E') \<and> store_inv E' \<and> cur_ok E'"
proof -
  obtain E1 where e1: "(if cy E = numrows E then editorInsertRow_cont g (numrows E) [] E
        else Some (Ok E)) = Some (Ok E1)" "store_inv E1" "cx E1 = cx E" "cy E1 = cy E"
    "cy E1 < numrows E1"
  proof (cases "cy E = numrows E")
    case True
    obtain Ea where "editorInsertRow_cont g (numrows E) [] E = Some (Ok Ea)" "store_inv Ea"
      "cx Ea = cx E" "cy Ea = cy E"
      "numrows Ea = (if numrows E < 0 \<or> numrows E > numrows E then numrows E else numrows E + 1)"
      using insert_row_cont_inv [OF assms(1), of g "numrows E" "[]"] by blast
    moreover have "0 \<le> numrows E" using assms(1) by (simp add: store_inv_nth)
    ultimately show ?thesis using True that [of Ea] by simp
  next
    case False
    then have "cy E < numrows E" using assms(2) by (simp add: cur_ok_def)
    then show ?thesis using False assms(1) that [of E] by simp
  qed
  have r1: "0 \<le> cy E1" "cy E1 < int (length (row E1))"
    using e1 assms(2) store_inv_rows(2) [OF e1(2)] by (simp_all add: cur_ok_def)
  then have p: "nat (cy E1) < length (row E1)" by (rule nat_less_length)
  obtain E2 where e2: "editorRowInsertChar_cont g (nat (cy E1)) (cx E1) c E1 = Some (Ok E2)"
    "kept E1 E2"
    using row_insert_char_cont_inv [OF e1(2) p] by blast
  have "editorInsertChar_cont g c E = Some (Ok (E2\<lparr>cx := cx E2 + 1\<rparr>))"
    unfolding editorInsertChar_cont_def e1(1)
    by (simp add: at_slot_in [OF r1] e2(1))
  moreover have "store_inv (E2\<lparr>cx := cx E2 + 1\<rparr>)"
    using e2(2) by (simp add: kept_def store_inv_fields)
  moreover have "cur_ok (E2\<lparr>cx := cx E2 + 1\<rparr>)"
    using e2(2) e1 assms(2) by (simp add: kept_def cur_ok_def)
  ultimately show ?thesis by blast
qed

lemma insert_newline_cont_inv:
  assumes "store_inv E" "cur_ok E"
  shows "\<exists>E'. editorInsertNewline_cont g E = Some (Ok E') \<and> store_inv E' \<and> cur_ok E'"
proof -
  have c: "0 \<le> cy E" "cy E \<le> numrows E" using assms(2) by (simp_all add: cur_ok_def)
  obtain E2 where e2: "(if cx E = 0 then editorInsertRow_cont g (cy E) [] E
        else at_slot (cy E) E (\<lambda>p.
               and_then
                 (editorInsertRow_cont g (cy E + 1) (drop (nat (cx E)) (chars (row E ! p))) E)
                 (\<lambda>E1. at_slot (cy E1) E1 (\<lambda>q.
                    editorUpdateRow_cont g q
                      (E1\<lparr>row := (row E1)[q := (row E1 ! q)\<lparr>chars :=
                                take (nat (cx E1)) (chars (row E1 ! q))\<rparr>]\<rparr>))))) = Some (Ok E2)"
    "store_inv E2" "cy E2 = cy E" "numrows E2 = numrows E + 1"
  proof (cases "cx E = 0")
    case True
    obtain Ea where "editorInsertRow_cont g (cy E) [] E = Some (Ok Ea)" "store_inv Ea"
      "cy Ea = cy E"
      "numrows Ea = (if cy E < 0 \<or> cy E > numrows E then numrows E else numrows E + 1)"
      using insert_row_cont_inv [OF assms(1), of g "cy E" "[]"] by blast
    then show ?thesis using True c that [of Ea] by simp
  next
    case False
    then have lt: "cy E < numrows E" using assms(2) by (auto simp: cur_ok_def)
    then have r0: "0 \<le> cy E" "cy E < int (length (row E))"
      using c store_inv_rows(2) [OF assms(1)] by simp_all
    define s where "s = drop (nat (cx E)) (chars (row E ! nat (cy E)))"
    obtain E1 where e1: "editorInsertRow_cont g (cy E + 1) s E = Some (Ok E1)" "store_inv E1"
      "cx E1 = cx E" "cy E1 = cy E"
      "numrows E1 = (if cy E + 1 < 0 \<or> cy E + 1 > numrows E then numrows E else numrows E + 1)"
      using insert_row_cont_inv [OF assms(1), of g "cy E + 1" s] by blast
    have n1: "numrows E1 = numrows E + 1" using e1(5) c lt by simp
    have r1: "0 \<le> cy E1" "cy E1 < int (length (row E1))"
      using e1 n1 c lt store_inv_rows(2) [OF e1(2)] by simp_all
    then have q: "nat (cy E1) < length (row E1)" by (rule nat_less_length)
    obtain Eb where eb: "editorUpdateRow_cont g (nat (cy E1))
        (E1\<lparr>row := (row E1)[nat (cy E1) := (row E1 ! nat (cy E1))\<lparr>chars :=
              take (nat (cx E1)) (chars (row E1 ! nat (cy E1)))\<rparr>]\<rparr>) = Some (Ok Eb)" "kept E1 Eb"
      using chars_then_update_row_cont_inv [OF e1(2) q] by blast
    have "at_slot (cy E) E (\<lambda>p.
               and_then
                 (editorInsertRow_cont g (cy E + 1) (drop (nat (cx E)) (chars (row E ! p))) E)
                 (\<lambda>E1. at_slot (cy E1) E1 (\<lambda>q.
                    editorUpdateRow_cont g q
                      (E1\<lparr>row := (row E1)[q := (row E1 ! q)\<lparr>chars :=
                                take (nat (cx E1)) (chars (row E1 ! q))\<rparr>]\<rparr>)))) = Some (Ok Eb)"
      by (simp add: at_slot_in [OF r0] s_def [symmetric] e1(1) at_slot_in [OF r1] eb(1))
    then show ?thesis using False eb(2) e1 n1 that [of Eb] by (simp add: kept_def)
  qed
  have "editorInsertNewline_cont g E = Some (Ok (E2\<lparr>cy := cy E2 + 1, cx := 0\<rparr>))"
    unfolding editorInsertNewline_cont_def e2(1) by simp
  moreover have "store_inv (E2\<lparr>cy := cy E2 + 1, cx := 0\<rparr>)"
    using e2(2) by (simp add: store_inv_nth)
  moreover have "cur_ok (E2\<lparr>cy := cy E2 + 1, cx := 0\<rparr>)"
    using e2 c by (simp add: cur_ok_def)
  ultimately show ?thesis by blast
qed

lemma del_char_cont_inv:
  assumes "store_inv E" "cur_ok E"
  shows "\<exists>E'. editorDelChar_cont g E = Some (Ok E') \<and> store_inv E' \<and> cur_ok E'"
proof (cases "cy E = numrows E \<or> (cx E = 0 \<and> cy E = 0)")
  case True
  then have "editorDelChar_cont g E = Some (Ok E)"
    by (auto simp: editorDelChar_cont_def)
  then show ?thesis using assms by simp
next
  case False
  then have f: "\<not> cy E = numrows E" "\<not> (cx E = 0 \<and> cy E = 0)" by blast+
  have c: "0 \<le> cx E" "0 \<le> cy E" "cy E < numrows E" using assms(2) f by (simp_all add: cur_ok_def)
  have nl: "numrows E \<le> int (length (row E))" by (rule store_inv_rows(2) [OF assms(1)])
  have r0: "0 \<le> cy E" "cy E < int (length (row E))" using c nl by simp_all
  define p where "p = nat (cy E)"
  have p: "p < length (row E)" unfolding p_def using r0 by (rule nat_less_length)
  have unfold: "editorDelChar_cont g E =
      (if cx E > 0
        then and_then (editorRowDelChar_cont g p (cx E - 1) E)
               (\<lambda>E1. Some (Ok (E1\<lparr>cx := cx E1 - 1\<rparr>)))
        else at_slot (cy E - 1) E (\<lambda>q.
               and_then
                 (editorRowAppendString_cont g q (chars (row E ! p))
                    (E\<lparr>cx := size_of (row E ! q)\<rparr>))
                 (\<lambda>E1. and_then (editorDelRow_cont (cy E1) E1)
                    (\<lambda>E2. Some (Ok (E2\<lparr>cy := cy E2 - 1\<rparr>))))))"
    unfolding editorDelChar_cont_def p_def
    by (simp only: if_not_P [OF f(1)] if_not_P [OF f(2)] at_slot_in [OF r0])
  show ?thesis
  proof (cases "cx E > 0")
    case True
    obtain E1 where e1: "editorRowDelChar_cont g p (cx E - 1) E = Some (Ok E1)" "kept E E1"
      using row_del_char_cont_inv [OF assms(1) p] by blast
    have "editorDelChar_cont g E = Some (Ok (E1\<lparr>cx := cx E1 - 1\<rparr>))"
      using unfold True e1(1) by simp
    moreover have "store_inv (E1\<lparr>cx := cx E1 - 1\<rparr>)"
      using e1(2) by (simp add: kept_def store_inv_fields)
    moreover have "cur_ok (E1\<lparr>cx := cx E1 - 1\<rparr>)"
      using e1(2) c True by (simp add: kept_def cur_ok_def)
    ultimately show ?thesis by blast
  next
    case False
    then have cy1: "1 \<le> cy E" using c f by simp
    have r1: "0 \<le> cy E - 1" "cy E - 1 < int (length (row E))" using cy1 r0 by simp_all
    define q where "q = nat (cy E - 1)"
    define Ex where "Ex = E\<lparr>cx := size_of (row E ! q)\<rparr>"
    have sx: "store_inv Ex" using assms(1) by (simp add: Ex_def store_inv_fields)
    have qx: "q < length (row Ex)" using r1 by (simp add: q_def Ex_def nat_less_iff)
    obtain E1 where e1: "editorRowAppendString_cont g q (chars (row E ! p)) Ex = Some (Ok E1)"
      "kept Ex E1"
      using row_append_string_cont_inv [OF sx qx] by blast
    have k1: "store_inv E1" "cy E1 = cy E" "numrows E1 = numrows E" "cx E1 = size_of (row E ! q)"
      using e1(2) by (simp_all add: kept_def Ex_def)
    obtain E2 where e2: "editorDelRow_cont (cy E1) E1 = Some (Ok E2)" "store_inv E2"
      "cx E2 = cx E1" "cy E2 = cy E1"
      "numrows E2 = (if cy E1 < 0 \<or> cy E1 \<ge> numrows E1 then numrows E1 else numrows E1 - 1)"
      using del_row_cont_inv [OF k1(1), of "cy E1"] by blast
    have n2: "numrows E2 = numrows E - 1" using e2(5) k1 c by simp
    have "editorDelChar_cont g E = Some (Ok (E2\<lparr>cy := cy E2 - 1\<rparr>))"
      using unfold False
      by (simp add: at_slot_in [OF r1] q_def [symmetric] Ex_def [symmetric] e1(1) e2(1))
    moreover have "store_inv (E2\<lparr>cy := cy E2 - 1\<rparr>)"
      using e2(2) by (simp add: store_inv_fields)
    moreover have "cur_ok (E2\<lparr>cy := cy E2 - 1\<rparr>)"
      using e2 k1 n2 c cy1 by (simp add: cur_ok_def)
    ultimately show ?thesis by blast
  qed
qed

lemma update_all_rows_cont_inv:
  assumes "store_inv E" "\<forall>j \<in> set js. j < length (row E)"
  shows "\<exists>E'. update_all_rows_cont g js E = Some (Ok E') \<and> kept E E'"
  using assms
proof (induction js arbitrary: E)
  case Nil
  then show ?case by (simp add: kept_refl)
next
  case (Cons j js)
  have j: "j < length (row E)" using Cons.prems(2) by simp
  have r: "0 \<le> int j" "int j < int (length (row E))" using j by simp_all
  have "\<forall>i < length (row E). int i \<le> idx (row E ! i) \<and> (i \<noteq> j \<longrightarrow> hl_ok_at (row E ! i))"
    using Cons.prems(1) by (simp add: store_inv_nth)
  then obtain E1 where e1: "editorUpdateSyntax_cont g j E = Some (Ok E1)" "kept E E1"
    using update_syntax_cont_inv [of E j g] Cons.prems(1) j by (auto simp: store_inv_nth)
  have "\<forall>i \<in> set js. i < length (row E1)" using Cons.prems(2) e1(2) by (simp add: kept_def)
  then obtain E2 where e2: "update_all_rows_cont g js E1 = Some (Ok E2)" "kept E1 E2"
    using Cons.IH [of E1] e1(2) by (auto simp: kept_def)
  have "update_all_rows_cont g (j # js) E = Some (Ok E2)"
    using e1(1) e2(1) by (simp add: at_slot_in [OF r])
  then show ?case using kept_trans [OF e1(2) e2(2)] by blast
qed

lemma select_syntax_cont_inv:
  assumes "store_inv E"
  shows "\<exists>E'. editorSelectSyntaxHighlight_cont g E = Some (Ok E') \<and> store_inv E'
     \<and> cx E' = cx E \<and> cy E' = cy E \<and> numrows E' = numrows E"
proof -
  have n: "store_inv (E\<lparr>cur_syntax := None\<rparr>)" using assms by (simp add: store_inv_fields)
  show ?thesis
  proof (cases "filename E")
    case None
    then show ?thesis using n by (simp add: editorSelectSyntaxHighlight_cont_def)
  next
    case (Some fname)
    show ?thesis
    proof (cases "select_syntax HLDB fname")
      case None
      then show ?thesis using n Some by (simp add: editorSelectSyntaxHighlight_cont_def)
    next
      case (Some s)
      define Es where "Es = E\<lparr>cur_syntax := Some s\<rparr>"
      have ss: "store_inv Es" using assms by (simp add: Es_def store_inv_fields)
      have "\<forall>j \<in> set [0 ..< nat (numrows E)]. j < length (row Es)"
        using assms by (simp add: Es_def store_inv_nth)
      then obtain E' where e: "update_all_rows_cont g [0 ..< nat (numrows E)] Es = Some (Ok E')"
        "kept Es E'"
        using update_all_rows_cont_inv [OF ss] by blast
      have "editorSelectSyntaxHighlight_cont g E = Some (Ok E')"
        using Some \<open>filename E = Some fname\<close> e(1)
        by (simp add: editorSelectSyntaxHighlight_cont_def Es_def)
      then show ?thesis using e(2) by (simp add: kept_def Es_def)
    qed
  qed
qed

lemma append_lines_cont_inv:
  assumes "store_inv E"
  shows "\<exists>E'. append_lines_cont g ls E = Some (Ok E') \<and> store_inv E'
     \<and> cx E' = cx E \<and> cy E' = cy E \<and> numrows E \<le> numrows E'"
  using assms
proof (induction ls arbitrary: E)
  case Nil
  then show ?case by simp
next
  case (Cons l ls)
  obtain E1 where e1: "editorInsertRow_cont g (numrows E) (strip_eol l) E = Some (Ok E1)"
    "store_inv E1" "cx E1 = cx E" "cy E1 = cy E"
    "numrows E1 = (if numrows E < 0 \<or> numrows E > numrows E then numrows E else numrows E + 1)"
    using insert_row_cont_inv [OF Cons.prems, of g "numrows E" "strip_eol l"] by blast
  obtain E2 where e2: "append_lines_cont g ls E1 = Some (Ok E2)" "store_inv E2"
    "cx E2 = cx E1" "cy E2 = cy E1" "numrows E1 \<le> numrows E2"
    using Cons.IH [OF e1(2)] by blast
  have "numrows E \<le> numrows E1" using e1(5) by (simp split: if_split_asm)
  then show ?case using e1 e2 by simp
qed

lemma open_cont_inv:
  assumes "store_inv E"
  shows "\<exists>E'. editorOpen_cont g fname ls E = Some (Ok E') \<and> store_inv E'
     \<and> (cur_ok E \<longrightarrow> cur_ok E')"
proof -
  have sf: "store_inv (E\<lparr>filename := Some fname\<rparr>)" using assms by (simp add: store_inv_fields)
  obtain E1 where e1: "editorSelectSyntaxHighlight_cont g (E\<lparr>filename := Some fname\<rparr>) = Some (Ok E1)"
    "store_inv E1" "cx E1 = cx E" "cy E1 = cy E" "numrows E1 = numrows E"
    using select_syntax_cont_inv [OF sf, of g] by auto
  obtain E2 where e2: "append_lines_cont g ls E1 = Some (Ok E2)" "store_inv E2"
    "cx E2 = cx E1" "cy E2 = cy E1" "numrows E1 \<le> numrows E2"
    using append_lines_cont_inv [OF e1(2)] by blast
  have "editorOpen_cont g fname ls E = Some (Ok (E2\<lparr>dirty := 0\<rparr>))"
    unfolding editorOpen_cont_def e1(1) by (simp add: e2(1))
  moreover have "store_inv (E2\<lparr>dirty := 0\<rparr>)" using e2(2) by (simp add: store_inv_fields)
  moreover have "cur_ok E \<longrightarrow> cur_ok (E2\<lparr>dirty := 0\<rparr>)"
    using e1 e2 by (auto simp: cur_ok_def)
  ultimately show ?thesis by blast
qed

lemma RxToCx_loop_nonneg:
  assumes "0 \<le> c"
  shows "0 \<le> RxToCx_loop cs x c cur"
  using assms
proof (induction cs x c cur rule: RxToCx_loop.induct)
  case (1 cs x c cur)
  show ?case
  proof (cases "0 \<le> c \<and> c < int (length cs)")
    case False
    then show ?thesis using "1.prems" by (subst RxToCx_loop.simps) simp
  next
    case True
    show ?thesis
    proof (cases "tab_advance (byte_at cs c) cur > x")
      case t: True
      then show ?thesis using True "1.prems" by (subst RxToCx_loop.simps) (simp add: Let_def)
    next
      case f: False
      have "0 \<le> RxToCx_loop cs x (c + 1) (tab_advance (byte_at cs c) cur)"
        using "1.IH" [OF True refl f] "1.prems" by simp
      then show ?thesis using True f by (subst RxToCx_loop.simps) (simp add: Let_def)
    qed
  qed
qed

lemma find_loop_range:
  assumes "nat (numrows E) \<le> length (row E)"
    and "dir = 1 \<or> dir = -1"
    and "-1 \<le> cur" "cur < numrows E" "dir = -1 \<longrightarrow> 0 \<le> cur"
    and "k \<le> nat (numrows E)"
  shows "snd (find_loop q E dir cur k) = NoMatch
    \<or> (\<exists>c off. snd (find_loop q E dir cur k) = Match c off \<and> 0 \<le> c \<and> c < numrows E
          \<and> strstr (render (row E ! nat c)) q = Some off)"
  using assms(3-6)
proof (induction k arbitrary: cur)
  case 0
  then show ?case by simp
next
  case (Suc k)
  define n where "n = numrows E"
  define c2 where "c2 = find_wrap n (cur + dir)"
  have npos: "0 < n" using Suc.prems n_def by simp
  have c2r: "0 \<le> c2" "c2 < n"
    using Suc.prems assms(2) npos by (auto simp: c2_def n_def find_wrap_def)
  have len: "c2 < int (length (row E))" using c2r assms(1) n_def by linarith
  show ?case
  proof (cases "strstr (render (row E ! nat c2)) q")
    case None
    then have "snd (find_loop q E dir cur (Suc k)) = snd (find_loop q E dir c2 k)"
      using c2r len by (simp add: Let_def c2_def [symmetric] n_def [symmetric])
    moreover have "snd (find_loop q E dir c2 k) = NoMatch
        \<or> (\<exists>c off. snd (find_loop q E dir c2 k) = Match c off \<and> 0 \<le> c \<and> c < numrows E
          \<and> strstr (render (row E ! nat c)) q = Some off)"
      using Suc.IH [of c2] c2r Suc.prems n_def by simp
    ultimately show ?thesis by simp
  next
    case (Some off)
    then have "snd (find_loop q E dir cur (Suc k)) = Match c2 off"
      using c2r len by (simp add: Let_def c2_def [symmetric] n_def [symmetric])
    then show ?thesis using c2r Some n_def by blast
  qed
qed

lemma find_callback_cont_inv:
  assumes "store_inv E" "find_ok F E"
  shows "\<exists>F' E'. editorFindCallback q key (F, E) = Ok (F', E') \<and> store_inv E' \<and> find_ok F' E'
     \<and> (cur_ok E \<longrightarrow> cur_ok E')"
proof -
  define E1 where "E1 = E\<lparr>row := restored_rows F E\<rparr>"
  define F1 where "F1 = F\<lparr>saved_hl := None\<rparr>"
  define F3 where "F3 = find_key_update key F1"
  define fr where "fr = snd (find_loop q E1 (direction F3) (last_match F3) (nat (numrows E1)))"
  have sv: "saved_ok F E" and lm: "-1 \<le> last_match F" "last_match F < max 0 (numrows E)"
    using assms(2) by (simp_all add: find_ok_def)
  have r: "restore_saved_hl (F, E) = Ok (F1, E1)" and s1: "store_inv E1"
    using restore_inv [OF assms(1) sv] by (simp_all add: E1_def F1_def)
  have e1: "numrows E1 = numrows E" "cx E1 = cx E" "cy E1 = cy E" by (simp_all add: E1_def)
  have n0: "0 \<le> numrows E" by (rule store_inv_rows(1) [OF assms(1)])
  have n1: "saved_hl F1 = None" by (simp add: F1_def)
  have n3: "saved_hl F3 = None" by (simp add: F3_def find_key_update_saved F1_def)
  have f1: "-1 \<le> last_match F1" "last_match F1 < max 0 (numrows E)"
    using lm by (simp_all add: F1_def)
  have rg: "-1 \<le> last_match F3 \<and> last_match F3 < max 0 (numrows E)
      \<and> (direction F3 = 1 \<or> direction F3 = -1) \<and> (direction F3 = -1 \<longrightarrow> 0 \<le> last_match F3)"
    unfolding F3_def using f1 by (rule find_key_update_range) simp
  have c1: "cur_ok E \<longrightarrow> cur_ok E1" by (simp add: cur_ok_def e1)
  show ?thesis
  proof (cases "key = KEY_ENTER \<or> key = KEY_ESC")
    case True
    then have "editorFindCallback q key (F, E) = Ok (F1\<lparr>last_match := -1, direction := 1\<rparr>, E1)"
      unfolding editorFindCallback_def r by simp
    moreover have "find_ok (F1\<lparr>last_match := -1, direction := 1\<rparr>) E1"
      using n1 n0 by (simp add: find_ok_def saved_ok_def e1)
    ultimately show ?thesis using s1 c1 by blast
  next
    case k: False
    have cb: "editorFindCallback q key (F, E)
        = (case fr of
             NoMatch \<Rightarrow> Ok (F3, E1)
           | BadRow j \<Rightarrow> OutOfBounds j (F3, E1)
           | Match current off \<Rightarrow>
               Ok (F3\<lparr>last_match := current, saved_hl_line := current,
                      saved_hl := Some (take (length (render (row E1 ! nat current)))
                                          (hl (row E1 ! nat current)))\<rparr>,
                   E1\<lparr>cy := current, cx := editorRowRxToCx (row E1 ! nat current) (int off),
                      rowoff := numrows E1,
                      row := (row E1)[nat current := (row E1 ! nat current)
                        \<lparr>hl := memset_hl (hl (row E1 ! nat current)) off HL_MATCH
                                 (length (c_str q))\<rparr>]\<rparr>))"
      unfolding editorFindCallback_def r fr_def F3_def Let_def using k by simp
    have fr_cases: "fr = NoMatch
        \<or> (\<exists>c off. fr = Match c off \<and> 0 \<le> c \<and> c < numrows E1
              \<and> strstr (render (row E1 ! nat c)) q = Some off)"
    proof (cases "numrows E = 0")
      case True
      then show ?thesis by (simp add: fr_def e1)
    next
      case False
      then have pos: "0 < numrows E" using n0 by simp
      show ?thesis
        unfolding fr_def
      proof (rule find_loop_range)
        show "nat (numrows E1) \<le> length (row E1)" using s1 by (simp add: store_inv_nth)
        show "direction F3 = 1 \<or> direction F3 = - 1" using rg by blast
        show "- 1 \<le> last_match F3" using rg by blast
        show "last_match F3 < numrows E1" using rg pos e1 by simp
        show "direction F3 = - 1 \<longrightarrow> 0 \<le> last_match F3" using rg by blast
        show "nat (numrows E1) \<le> nat (numrows E1)" by simp
      qed
    qed
    show ?thesis
    proof (cases "fr = NoMatch")
      case True
      then have "editorFindCallback q key (F, E) = Ok (F3, E1)" using cb by simp
      moreover have "find_ok F3 E1" using n3 rg by (simp add: find_ok_def saved_ok_def e1)
      ultimately show ?thesis using s1 c1 by blast
    next
      case False
      then obtain c off where m: "fr = Match c off" "0 \<le> c" "c < numrows E1"
        "strstr (render (row E1 ! nat c)) q = Some off"
        using fr_cases by blast
      define l where "l = nat c"
      define rw where "rw = row E1 ! l"
      have l: "l < length (row E1)"
        using m(2,3) store_inv_rows(2) [OF s1] by (simp add: l_def nat_less_iff)
      have ok: "length (hl rw) = length (render rw)"
        using s1 l by (simp add: store_inv_nth hl_ok_at_def rw_def)
      have "off + length (c_str q) \<le> length (hl rw)"
        using strstr_bound [of "render rw" q off] m(4) ok by (simp add: rw_def l_def)
      then have lmm: "length (memset_hl (hl rw) off HL_MATCH (length (c_str q))) = length (render (row E1 ! l))"
        using ok by (simp add: memset_hl_length rw_def)
      define E2 where "E2 = E1\<lparr>row := (row E1)[l := (row E1 ! l)\<lparr>hl :=
          memset_hl (hl rw) off HL_MATCH (length (c_str q))\<rparr>]\<rparr>"
      have s2: "store_inv E2" unfolding E2_def using s1 lmm by (rule store_inv_hl_update)
      define F4 where "F4 = F3\<lparr>last_match := c, saved_hl_line := c,
          saved_hl := Some (take (length (render rw)) (hl rw))\<rparr>"
      define E3 where "E3 = E2\<lparr>cy := c, cx := editorRowRxToCx rw (int off), rowoff := numrows E1\<rparr>"
      have e: "editorFindCallback q key (F, E) = Ok (F4, E3)"
        using cb m(1) by (simp add: F4_def E3_def E2_def l_def [symmetric] rw_def [symmetric])
      have s3: "store_inv E3" using s2 by (simp add: E3_def store_inv_nth)
      have nr: "numrows E3 = numrows E" "length (row E3) = length (row E1)"
        by (simp_all add: E3_def E2_def e1)
      have "render (row E3 ! l) = render rw" using l by (simp add: E3_def E2_def rw_def)
      moreover have "c < int (length (row E1))" using l m(2) by (simp add: l_def)
      ultimately have "saved_ok F4 E3"
        using m(2) l ok nr by (simp add: saved_ok_def F4_def l_def [symmetric])
      then have f4: "find_ok F4 E3" using m(2,3) nr e1 by (simp add: find_ok_def F4_def)
      have "0 \<le> editorRowRxToCx rw (int off)"
        unfolding editorRowRxToCx_def by (rule RxToCx_loop_nonneg) simp
      then have "cur_ok E3" using m(2,3) nr e1 by (simp add: cur_ok_def E3_def E2_def)
      then show ?thesis using e s3 f4 by blast
    qed
  qed
qed

lemma init_cur_ok: "cur_ok (initEditor rows cols)"
  by (simp add: cur_ok_def initEditor_def)

lemma kept_store: "kept E E' \<Longrightarrow> store_inv E'"
  by (simp add: kept_def)

text \<open>Claim C5: in every state in which the row store is well-formed (\<open>store_inv\<close>: no slot carries
  an index below its position and every highlight array has the length of its display text),
  each row of the document has \<open>length hl = rsize\<close>.  The initial state is well-formed.  Loading
  a file, selecting the syntax, inserting and deleting a row, re-highlighting a row, every row
  operation, and, with the cursor on a row or on the line after the last one, inserting a
  character, breaking a line and deleting a character (joining two rows included) run to their
  end without an access outside the row array other than the stray ones of the index loop and
  of the open-comment flag, and end in a well-formed state with the cursor in range again,
  whatever the stray reads return.  Every call of the search callback within a search session
  (marking a match and restoring the saved row included) does the same and keeps the invariant
  of the session.\<close>

theorem C5_highlight_length_invariant:
  assumes "store_inv E"
  shows "(\<forall>j < nat (numrows E). int (length (hl (row E ! j))) = rsize (row E ! j))
    \<and> store_inv (initEditor rows cols) \<and> cur_ok (initEditor rows cols)
    \<and> (\<exists>E'. editorOpen_cont g fname ls E = Some (Ok E') \<and> store_inv E'
              \<and> (cur_ok E \<longrightarrow> cur_ok E'))
    \<and> (\<exists>E'. editorSelectSyntaxHighlight_cont g E = Some (Ok E') \<and> store_inv E')
    \<and> (\<exists>E'. editorInsertRow_cont g at s E = Some (Ok E') \<and> store_inv E')
    \<and> (\<exists>E'. editorDelRow_cont at E = Some (Ok E') \<and> store_inv E')
    \<and> (p < length (row E) \<longrightarrow>
          (\<exists>E'. editorUpdateSyntax_cont g p E = Some (Ok E') \<and> store_inv E')
          \<and> (\<exists>E'. editorUpdateRow_cont g p E = Some (Ok E') \<and> store_inv E')
          \<and> (\<exists>E'. editorRowInsertChar_cont g p at c E = Some (Ok E') \<and> store_inv E')
          \<and> (\<exists>E'. editorRowAppendString_cont g p s E = Some (Ok E') \<and> store_inv E')
          \<and> (\<exists>E'. editorRowDelChar_cont g p at E = Some (Ok E') \<and> store_inv E'))
    \<and> (cur_ok E \<longrightarrow>
          (\<exists>E'. editorInsertChar_cont g c E = Some (Ok E') \<and> store_inv E' \<and> cur_ok E')
          \<and> (\<exists>E'. editorInsertNewline_cont g E = Some (Ok E') \<and> store_inv E' \<and> cur_ok E')
          \<and> (\<exists>E'. editorDelChar_cont g E = Some (Ok E') \<and> store_inv E' \<and> cur_ok E'))
    \<and> (find_ok F E \<longrightarrow>
          (\<exists>F' E'. editorFindCallback q key (F, E) = Ok (F', E') \<and> store_inv E'
              \<and> find_ok F' E' \<and> (cur_ok E \<longrightarrow> cur_ok E')))"
proof (intro conjI impI allI)
  fix j assume "j < nat (numrows E)"
  then show "int (length (hl (row E ! j))) = rsize (row E ! j)"
    using assms by (rule store_inv_document_rows [rotated])
next
  show "store_inv (initEditor rows cols)" by (rule init_inv)
  show "cur_ok (initEditor rows cols)" by (rule init_cur_ok)
  show "\<exists>E'. editorOpen_cont g fname ls E = Some (Ok E') \<and> store_inv E'
              \<and> (cur_ok E \<longrightarrow> cur_ok E')"
    by (rule open_cont_inv [OF assms])
  show "\<exists>E'. editorSelectSyntaxHighlight_cont g E = Some (Ok E') \<and> store_inv E'"
    using select_syntax_cont_inv [OF assms, of g] by blast
  show "\<exists>E'. editorInsertRow_cont g at s E = Some (Ok E') \<and> store_inv E'"
    using insert_row_cont_inv [OF assms, of g at s] by blast
  show "\<exists>E'. editorDelRow_cont at E = Some (Ok E') \<and> store_inv E'"
    using del_row_cont_inv [OF assms, of at] by blast
next
  assume p: "p < length (row E)"
  have "\<forall>j < length (row E). int j \<le> idx (row E ! j) \<and> (j \<noteq> p \<longrightarrow> hl_ok_at (row E ! j))"
    using assms by (simp add: store_inv_nth)
  then show "\<exists>E'. editorUpdateSyntax_cont g p E = Some (Ok E') \<and> store_inv E'"
    using update_syntax_cont_inv [OF store_inv_rows(1) [OF assms] _ p, of g] assms kept_store
    by (auto simp: store_inv_nth)
  show "\<exists>E'. editorUpdateRow_cont g p E = Some (Ok E') \<and> store_inv E'"
    using update_row_cont_inv [OF assms p, of g] kept_store by blast
  show "\<exists>E'. editorRowInsertChar_cont g p at c E = Some (Ok E') \<and> store_inv E'"
    using row_insert_char_cont_inv [OF assms p, of g at c] kept_store by blast
  show "\<exists>E'. editorRowAppendString_cont g p s E = Some (Ok E') \<and> store_inv E'"
    using row_append_string_cont_inv [OF assms p, of g s] kept_store by blast
  show "\<exists>E'. editorRowDelChar_cont g p at E = Some (Ok E') \<and> store_inv E'"
    using row_del_char_cont_inv [OF assms p, of g at] kept_store by blast
next
  assume c: "cur_ok E"
  show "\<exists>E'. editorInsertChar_cont g c E = Some (Ok E') \<and> store_inv E' \<and> cur_ok E'"
    by (rule insert_char_cont_inv [OF assms c])
  show "\<exists>E'. editorInsertNewline_cont g E = Some (Ok E') \<and> store_inv E' \<and> cur_ok E'"
    by (rule insert_newline_cont_inv [OF assms c])
  show "\<exists>E'. editorDelChar_cont g E = Some (Ok E') \<and> store_inv E' \<and> cur_ok E'"
    by (rule del_char_cont_inv [OF assms c])
next
  assume f: "find_ok F E"
  show "\<exists>F' E'. editorFindCallback q key (F, E) = Ok (F', E') \<and> store_inv E'
              \<and> find_ok F' E' \<and> (cur_ok E \<longrightarrow> cur_ok E')"
    by (rule find_callback_cont_inv [OF assms f])
qed

theorem C5_highlight_length_invariant_witness:
  "store_inv doc3_join \<and> cur_ok doc3_join \<and> find_ok find_init doc3_join
   \<and> (1::nat) < length (row doc3_join)
   \<and> map (\<lambda>r. int (length (hl r))) (row doc3_join) = map rsize (row doc3_join)
   \<and> (\<exists>E'. editorDelRow_cont 1 doc3_join = Some (Ok E') \<and> store_inv E')
   \<and> (\<exists>E'. editorRowInsertChar_cont (\<lambda>j. False) 1 1 (CHR ''x'') doc3_join = Some (Ok E')
            \<and> store_inv E')
   \<and> (\<exists>E'. editorInsertChar_cont (\<lambda>j. False) (CHR ''x'') doc3_join = Some (Ok E')
            \<and> store_inv E' \<and> cur_ok E')
   \<and> (\<exists>E'. editorDelChar_cont (\<lambda>j. False) doc3_join = Some (Ok E') \<and> store_inv E' \<and> cur_ok E')
   \<and> (\<exists>F' E'. editorFindCallback ''a'' 97 (find_init, doc3_join) = Ok (F', E') \<and> store_inv E'
            \<and> find_ok F' E')
   \<and> map_option (\<lambda>out. (fault_of out, numrows (state_of out), cy (state_of out),
                         map chars (take 2 (row (state_of out)))))
        (editorDelChar_cont (\<lambda>j. False) doc3_join) = Some (None, 2, 0, [''ab'', ''c''])"
proof -
  have s: "store_inv doc3_join" by code_simp
  have c: "cur_ok doc3_join" by code_simp
  have f: "find_ok find_init doc3_join" by code_simp
  have p: "(1::nat) < length (row doc3_join)" by code_simp
  have m: "map (\<lambda>r. int (length (hl r))) (row doc3_join) = map rsize (row doc3_join)"
    by code_simp
  have j: "map_option (\<lambda>out. (fault_of out, numrows (state_of out), cy (state_of out),
                         map chars (take 2 (row (state_of out)))))
        (editorDelChar_cont (\<lambda>j. False) doc3_join) = Some (None, 2, 0, [''ab'', ''c''])"
    by code_simp
  note c5 = C5_highlight_length_invariant [OF s, of 24 80 "\<lambda>j. False" "''f.c''" "[]" 1 "[]" 1
      "CHR ''x''" find_init "''a''" 97]
  show ?thesis using c5 s c f p m j by blast
qed

section \<open>An opened block comment reaches the following rows\<close>




















lemma line_comment_doc_loaded:
  "and_then (editorOpen ''f.c'' [''//'', ''b'', ''c''] (initEditor 24 80))
     (\<lambda>E. Some (Ok (E\<lparr>cx := 2\<rparr>))) = Some (Ok line_comment_doc)"
  by code_simp




section \<open>Both readings of a stray access agree where none occurs\<close>

text \<open>An operation that runs to its end without touching a slot outside the row array returns
  the same state when the program runs on past stray accesses; and where \<^verbatim>\<open>editorDelRow\<close> stops at
  the stray write of its index loop, running on executes the two remaining statements on the
  state reached.\<close>

lemma bump_idx_cont_ok:
  assumes "bump_idx arr js = Ok arr'"
  shows "bump_idx_cont arr js = arr'"
  using assms by (induction js arbitrary: arr) (simp_all split: if_split_asm)

lemma bump_idx_cont_outside:
  assumes "\<forall>j \<in> set js. length arr \<le> j"
  shows "bump_idx_cont arr js = arr"
  using assms by (induction js) simp_all

lemma bump_idx_cont_fault:
  assumes "bump_idx arr js = OutOfBounds j arr'" "sorted js"
  shows "bump_idx_cont arr js = arr'"
  using assms
proof (induction js arbitrary: arr)
  case Nil
  then show ?case by simp
next
  case (Cons x xs)
  show ?case
  proof (cases "x < length arr")
    case True
    then show ?thesis using Cons by simp
  next
    case False
    then have "arr' = arr" using Cons.prems(1) by simp
    moreover have "\<forall>y \<in> set xs. length arr \<le> y" using False Cons.prems(2) by auto
    ultimately show ?thesis using False by (simp add: bump_idx_cont_outside)
  qed
qed

lemma del_row_cont_agrees:
  assumes "editorDelRow at E = Some out"
  shows "editorDelRow_cont at E
     = Some (Ok (case out of
                   Ok s \<Rightarrow> s
                 | OutOfBounds j s \<Rightarrow> s\<lparr>numrows := numrows s - 1, dirty := dirty s + 1\<rparr>))"
proof (cases "at < 0 \<or> at \<ge> numrows E")
  case True
  then show ?thesis using assms by (auto simp: editorDelRow_def editorDelRow_cont_def)
next
  case False
  define n where "n = nat (numrows E)"
  define a where "a = nat at"
  define arr where "arr = memmove_rows (row E) a (a + 1) (n - a - 1)"
  have c: "editorDelRow_cont at E
      = Some (Ok (E\<lparr>row := bump_idx_cont arr [a + 1 ..< n + 1], numrows := numrows E - 1,
                    dirty := dirty E + 1\<rparr>))"
    using False by (simp add: editorDelRow_cont_def Let_def arr_def a_def n_def)
  show ?thesis
  proof (cases "bump_idx arr [a + 1 ..< n + 1]")
    case (Ok arr')
    then have "out = Ok (E\<lparr>row := arr', numrows := numrows E - 1, dirty := dirty E + 1\<rparr>)"
      using assms False by (simp add: editorDelRow_def Let_def arr_def a_def n_def)
    then show ?thesis using c bump_idx_cont_ok [OF Ok] by simp
  next
    case (OutOfBounds j arr')
    then have "out = OutOfBounds j (E\<lparr>row := arr'\<rparr>)"
      using assms False by (simp add: editorDelRow_def Let_def arr_def a_def n_def)
    moreover have "bump_idx_cont arr [a + 1 ..< n + 1] = arr'"
      using OutOfBounds by (rule bump_idx_cont_fault) (rule sorted_upt)
    ultimately show ?thesis using c by simp
  qed
qed

lemma update_syntax_cont_agrees:
  assumes "editorUpdateSyntax p E = Some y"
  shows "\<forall>E'. snd y = Ok E' \<longrightarrow> editorUpdateSyntax_cont g p E = Some (Ok E')"
proof (rule editorUpdateSyntax.raw_induct [rotated, OF assms], goal_cases)
  case (1 f p E y)
  define r where "r = row E ! p"
  define h0 where "h0 = replicate (length (render r)) HL_NORMAL"
  define E0 where "E0 = E\<lparr>row := (row E)[p := r\<lparr>hl := h0\<rparr>]\<rparr>"
  show ?case
  proof (cases "cur_syntax E")
    case None
    have "y = (1, Ok E0)"
      using "1"(2) unfolding E0_def h0_def r_def
      by (simp only: Let_def None option.case option.inject)
    moreover have "editorUpdateSyntax_cont g p E = Some (Ok E0)"
      unfolding E0_def h0_def r_def
      by (subst editorUpdateSyntax_cont.simps) (simp only: Let_def None option.case)
    ultimately show ?thesis by simp
  next
    case (Some syn)
    define in0 where "in0 = (idx r > 0 \<and> hl_open_comment (row E0 ! nat (idx r - 1)))"
    define in1 where "in1 = (idx r > 0
                    \<and> (if idx r - 1 < int (length (row E))
                        then hl_open_comment (row E0 ! nat (idx r - 1))
                        else g (idx r - 1)))"
    define res where "res = scan_row syn (render r) 0 True (CHR 0x00) in0 h0"
    define res1 where "res1 = scan_row syn (render r) 0 True (CHR 0x00) in1 h0"
    define E1 where "E1 = E\<lparr>row := (row E)[p := r\<lparr>hl := fst res, hl_open_comment := snd res\<rparr>]\<rparr>"
    define E2 where "E2 = E\<lparr>row := (row E)[p := r\<lparr>hl := fst res1, hl_open_comment := snd res1\<rparr>]\<rparr>"
    define A where "A \<longleftrightarrow> idx r > 0 \<and> \<not> idx r - 1 < int (length (row E))"
    define B where "B \<longleftrightarrow> hl_open_comment r \<noteq> snd res \<and> idx r + 1 < numrows E"
    define B1 where "B1 \<longleftrightarrow> hl_open_comment r \<noteq> snd res1 \<and> idx r + 1 < numrows E"
    define D where "D \<longleftrightarrow> idx r + 1 < 0 \<or> \<not> idx r + 1 < int (length (row E))"
    have src: "Some y =
       (if A then Some (1, OutOfBounds (idx r - 1) E0)
        else if B
             then (if D then Some (1, OutOfBounds (idx r + 1) E1)
                   else Option.bind (f (nat (idx r + 1)) E1) (\<lambda>(n, out). Some (Suc n, out)))
             else Some (1, Ok E1))"
      using "1"(2) [symmetric]
      unfolding A_def B_def D_def E1_def res_def in0_def E0_def h0_def r_def
      by (simp only: Let_def Some option.case)
    have cont: "editorUpdateSyntax_cont g p E =
       (if B1
        then (if D then Some (OutOfBounds (idx r + 1) E2)
              else editorUpdateSyntax_cont g (nat (idx r + 1)) E2)
        else Some (Ok E2))"
      unfolding B1_def D_def E2_def res1_def in1_def E0_def h0_def r_def
      by (subst editorUpdateSyntax_cont.simps) (simp only: Let_def Some option.case)
    show ?thesis
    proof (cases A)
      case True
      then show ?thesis using src by simp
    next
      case notA: False
      then have "in1 = in0" by (auto simp: in1_def in0_def A_def)
      then have same: "res1 = res" "E2 = E1" "B1 = B"
        by (simp_all add: res1_def res_def E2_def E1_def B1_def B_def)
      show ?thesis
      proof (cases B)
        case False
        then show ?thesis using src cont notA same by simp
      next
        case b: True
        show ?thesis
        proof (cases D)
          case True
          then show ?thesis using src notA b by simp
        next
          case d: False
          have s: "Some y = Option.bind (f (nat (idx r + 1)) E1) (\<lambda>(n, out). Some (Suc n, out))"
            using src notA b d by simp
          then obtain z where z: "f (nat (idx r + 1)) E1 = Some z"
            by (cases "f (nat (idx r + 1)) E1") simp_all
          then have y: "snd y = snd z" using s by (cases z) simp
          have "\<forall>E'. snd z = Ok E' \<longrightarrow>
              editorUpdateSyntax_cont g (nat (idx r + 1)) E1 = Some (Ok E')"
            using "1"(1) [OF z] .
          then show ?thesis using cont same b d y by simp
        qed
      qed
    qed
  qed
qed

lemma and_then_agrees:
  assumes "and_then m f = Some (Ok E')"
    and "\<And>s. m = Some (Ok s) \<Longrightarrow> m' = Some (Ok s)"
    and "\<And>s. m = Some (Ok s) \<Longrightarrow> f s = Some (Ok E') \<Longrightarrow> f' s = Some (Ok E')"
  shows "and_then m' f' = Some (Ok E')"
proof (cases m)
  case None
  then show ?thesis using assms(1) by simp
next
  case (Some out)
  show ?thesis
  proof (cases out)
    case (Ok s)
    then have "m' = Some (Ok s)" "f' s = Some (Ok E')" using Some assms by simp_all
    then show ?thesis by simp
  next
    case (OutOfBounds j s)
    then show ?thesis using Some assms(1) by simp
  qed
qed

lemma at_slot_agrees:
  assumes "at_slot j E f = Some (Ok E')"
    and "\<And>p. f p = Some (Ok E') \<Longrightarrow> f' p = Some (Ok E')"
  shows "at_slot j E f' = Some (Ok E')"
  using assms by (cases "0 \<le> j \<and> j < int (length (row E))") (simp_all add: at_slot_def)

lemma update_syntax_snd_agrees:
  assumes "map_option snd (editorUpdateSyntax p E) = Some (Ok E')"
  shows "editorUpdateSyntax_cont g p E = Some (Ok E')"
proof -
  obtain y where y: "editorUpdateSyntax p E = Some y" "snd y = Ok E'"
    using assms by (cases "editorUpdateSyntax p E") auto
  show ?thesis using update_syntax_cont_agrees [OF y(1), of g] y(2) by simp
qed

lemma update_row_cont_agrees:
  assumes "editorUpdateRow p E = Some (Ok E')"
  shows "editorUpdateRow_cont g p E = Some (Ok E')"
  using assms unfolding editorUpdateRow_def editorUpdateRow_cont_def
  by (rule update_syntax_snd_agrees)

lemma insert_row_cont_agrees:
  assumes "editorInsertRow at s E = Some (Ok E')"
  shows "editorInsertRow_cont g at s E = Some (Ok E')"
proof (cases "at < 0 \<or> at > numrows E")
  case True
  then show ?thesis using assms by (simp add: editorInsertRow_def editorInsertRow_cont_def)
next
  case False
  define n where "n = nat (numrows E)"
  define a where "a = nat at"
  define arr where "arr = memmove_rows (realloc_rows (row E) (n + 1)) (a + 1) a (n - a)"
  define new where "new = \<lparr>idx = at, chars = s, render = [], hl = [], hl_open_comment = False\<rparr>"
  have src: "editorInsertRow at s E
      = (case bump_idx arr [a + 1 ..< n + 1] of
           OutOfBounds j arr' \<Rightarrow> Some (OutOfBounds j (E\<lparr>row := arr'\<rparr>))
         | Ok arr' \<Rightarrow>
             and_then (editorUpdateRow a (E\<lparr>row := arr'[a := new]\<rparr>))
               (\<lambda>E'. Some (Ok (E'\<lparr>numrows := numrows E' + 1, dirty := dirty E' + 1\<rparr>))))"
    unfolding editorInsertRow_def Let_def arr_def a_def n_def new_def
    by (simp only: if_not_P [OF False])
  have cont: "editorInsertRow_cont g at s E
      = and_then (editorUpdateRow_cont g a (E\<lparr>row := (bump_idx_cont arr [a + 1 ..< n + 1])[a := new]\<rparr>))
          (\<lambda>E'. Some (Ok (E'\<lparr>numrows := numrows E' + 1, dirty := dirty E' + 1\<rparr>)))"
    unfolding editorInsertRow_cont_def Let_def arr_def a_def n_def new_def
    by (simp only: if_not_P [OF False])
  show ?thesis
  proof (cases "bump_idx arr [a + 1 ..< n + 1]")
    case (OutOfBounds j arr')
    then show ?thesis using assms src by simp
  next
    case (Ok arr')
    have b: "bump_idx_cont arr [a + 1 ..< n + 1] = arr'" using Ok by (rule bump_idx_cont_ok)
    have "and_then (editorUpdateRow a (E\<lparr>row := arr'[a := new]\<rparr>))
               (\<lambda>E'. Some (Ok (E'\<lparr>numrows := numrows E' + 1, dirty := dirty E' + 1\<rparr>)))
          = Some (Ok E')"
      using assms src Ok by simp
    then show ?thesis
      unfolding cont b by (rule and_then_agrees) (simp_all add: update_row_cont_agrees)
  qed
qed

lemma row_insert_char_cont_agrees:
  assumes "editorRowInsertChar p at c E = Some (Ok E')"
  shows "editorRowInsertChar_cont g p at c E = Some (Ok E')"
  using assms unfolding editorRowInsertChar_def editorRowInsertChar_cont_def Let_def
  by (rule and_then_agrees) (simp_all add: update_row_cont_agrees)

lemma row_append_string_cont_agrees:
  assumes "editorRowAppendString p s E = Some (Ok E')"
  shows "editorRowAppendString_cont g p s E = Some (Ok E')"
  using assms unfolding editorRowAppendString_def editorRowAppendString_cont_def
  by (rule and_then_agrees) (simp_all add: update_row_cont_agrees)

lemma row_del_char_cont_agrees:
  assumes "editorRowDelChar p at E = Some (Ok E')"
  shows "editorRowDelChar_cont g p at E = Some (Ok E')"
proof (cases "at < 0 \<or> at \<ge> size_of (row E ! p)")
  case True
  then show ?thesis using assms by (simp add: editorRowDelChar_def editorRowDelChar_cont_def)
next
  case False
  have "and_then
          (editorUpdateRow p
             (E\<lparr>row := (row E)[p := (row E ! p)\<lparr>chars := take (nat at) (chars (row E ! p))
                                        @ drop (nat at + 1) (chars (row E ! p))\<rparr>]\<rparr>))
          (\<lambda>E'. Some (Ok (E'\<lparr>dirty := dirty E' + 1\<rparr>))) = Some (Ok E')"
    using assms False by (simp add: editorRowDelChar_def Let_def)
  then have "and_then
          (editorUpdateRow_cont g p
             (E\<lparr>row := (row E)[p := (row E ! p)\<lparr>chars := take (nat at) (chars (row E ! p))
                                        @ drop (nat at + 1) (chars (row E ! p))\<rparr>]\<rparr>))
          (\<lambda>E'. Some (Ok (E'\<lparr>dirty := dirty E' + 1\<rparr>))) = Some (Ok E')"
    by (rule and_then_agrees) (simp_all add: update_row_cont_agrees)
  then show ?thesis using False by (simp add: editorRowDelChar_cont_def Let_def)
qed

lemma del_row_cont_ok:
  assumes "editorDelRow at E = Some (Ok E')"
  shows "editorDelRow_cont at E = Some (Ok E')"
  using del_row_cont_agrees [OF assms] by simp

lemma insert_char_cont_agrees:
  assumes "editorInsertChar c E = Some (Ok E')"
  shows "editorInsertChar_cont g c E = Some (Ok E')"
  using assms unfolding editorInsertChar_def editorInsertChar_cont_def
proof (rule and_then_agrees, goal_cases)
  case (1 s)
  then show ?case by (simp add: insert_row_cont_agrees split: if_split_asm)
next
  case (2 s)
  from 2(2) show ?case
  proof (rule and_then_agrees, goal_cases)
    case (1 t)
    then show ?case by (rule at_slot_agrees) (rule row_insert_char_cont_agrees)
  next
    case (2 t)
    then show ?case by simp
  qed
qed

lemma insert_newline_cont_agrees:
  assumes "editorInsertNewline E = Some (Ok E')"
  shows "editorInsertNewline_cont g E = Some (Ok E')"
  using assms unfolding editorInsertNewline_def editorInsertNewline_cont_def
proof (rule and_then_agrees, goal_cases)
  case (1 s)
  show ?case
  proof (cases "cx E = 0")
    case True
    then show ?thesis using 1 by (simp add: insert_row_cont_agrees)
  next
    case False
    have "at_slot (cy E) E (\<lambda>p.
               and_then (editorInsertRow (cy E + 1) (drop (nat (cx E)) (chars (row E ! p))) E)
                 (\<lambda>E1. at_slot (cy E1) E1 (\<lambda>q.
                    editorUpdateRow q
                      (E1\<lparr>row := (row E1)[q := (row E1 ! q)\<lparr>chars :=
                                take (nat (cx E1)) (chars (row E1 ! q))\<rparr>]\<rparr>)))) = Some (Ok s)"
      using 1 False by simp
    then have "at_slot (cy E) E (\<lambda>p.
               and_then (editorInsertRow_cont g (cy E + 1) (drop (nat (cx E)) (chars (row E ! p))) E)
                 (\<lambda>E1. at_slot (cy E1) E1 (\<lambda>q.
                    editorUpdateRow_cont g q
                      (E1\<lparr>row := (row E1)[q := (row E1 ! q)\<lparr>chars :=
                                take (nat (cx E1)) (chars (row E1 ! q))\<rparr>]\<rparr>)))) = Some (Ok s)"
    proof (rule at_slot_agrees, goal_cases)
      case (1 p)
      then show ?case
      proof (rule and_then_agrees, goal_cases)
        case (1 t)
        then show ?case by (rule insert_row_cont_agrees)
      next
        case (2 t)
        from 2(2) show ?case by (rule at_slot_agrees) (rule update_row_cont_agrees)
      qed
    qed
    then show ?thesis using False by simp
  qed
next
  case (2 s)
  then show ?case by simp
qed

lemma del_char_cont_agrees:
  assumes "editorDelChar E = Some (Ok E')"
  shows "editorDelChar_cont g E = Some (Ok E')"
proof (cases "cy E = numrows E")
  case True
  then show ?thesis using assms by (simp add: editorDelChar_def editorDelChar_cont_def)
next
  case n1: False
  show ?thesis
  proof (cases "cx E = 0 \<and> cy E = 0")
  case True
  have "editorDelChar E = Some (Ok E)" "editorDelChar_cont g E = Some (Ok E)"
    unfolding editorDelChar_def editorDelChar_cont_def
    by (simp_all only: if_not_P [OF n1] if_P [OF True])
  then show ?thesis using assms by simp
next
  case False
  have "at_slot (cy E) E (\<lambda>p.
        if cx E > 0
        then and_then (editorRowDelChar p (cx E - 1) E) (\<lambda>E1. Some (Ok (E1\<lparr>cx := cx E1 - 1\<rparr>)))
        else at_slot (cy E - 1) E (\<lambda>q.
               and_then
                 (editorRowAppendString q (chars (row E ! p)) (E\<lparr>cx := size_of (row E ! q)\<rparr>))
                 (\<lambda>E1. and_then (editorDelRow (cy E1) E1)
                    (\<lambda>E2. Some (Ok (E2\<lparr>cy := cy E2 - 1\<rparr>)))))) = Some (Ok E')"
    using assms unfolding editorDelChar_def by (simp only: if_not_P [OF n1] if_not_P [OF False])
  then have "at_slot (cy E) E (\<lambda>p.
        if cx E > 0
        then and_then (editorRowDelChar_cont g p (cx E - 1) E)
               (\<lambda>E1. Some (Ok (E1\<lparr>cx := cx E1 - 1\<rparr>)))
        else at_slot (cy E - 1) E (\<lambda>q.
               and_then
                 (editorRowAppendString_cont g q (chars (row E ! p))
                    (E\<lparr>cx := size_of (row E ! q)\<rparr>))
                 (\<lambda>E1. and_then (editorDelRow_cont (cy E1) E1)
                    (\<lambda>E2. Some (Ok (E2\<lparr>cy := cy E2 - 1\<rparr>)))))) = Some (Ok E')"
  proof (rule at_slot_agrees, goal_cases)
    case (1 p)
    show ?case
    proof (cases "cx E > 0")
      case True
      then have "and_then (editorRowDelChar p (cx E - 1) E)
          (\<lambda>E1. Some (Ok (E1\<lparr>cx := cx E1 - 1\<rparr>))) = Some (Ok E')" using 1 by simp
      then have "and_then (editorRowDelChar_cont g p (cx E - 1) E)
          (\<lambda>E1. Some (Ok (E1\<lparr>cx := cx E1 - 1\<rparr>))) = Some (Ok E')"
        by (rule and_then_agrees) (simp_all add: row_del_char_cont_agrees)
      then show ?thesis using True by simp
    next
      case c0: False
      then have "at_slot (cy E - 1) E (\<lambda>q.
               and_then
                 (editorRowAppendString q (chars (row E ! p)) (E\<lparr>cx := size_of (row E ! q)\<rparr>))
                 (\<lambda>E1. and_then (editorDelRow (cy E1) E1)
                    (\<lambda>E2. Some (Ok (E2\<lparr>cy := cy E2 - 1\<rparr>))))) = Some (Ok E')"
        using 1 by simp
      then have "at_slot (cy E - 1) E (\<lambda>q.
               and_then
                 (editorRowAppendString_cont g q (chars (row E ! p))
                    (E\<lparr>cx := size_of (row E ! q)\<rparr>))
                 (\<lambda>E1. and_then (editorDelRow_cont (cy E1) E1)
                    (\<lambda>E2. Some (Ok (E2\<lparr>cy := cy E2 - 1\<rparr>))))) = Some (Ok E')"
      proof (rule at_slot_agrees, goal_cases)
        case (1 q)
        then show ?case
        proof (rule and_then_agrees, goal_cases)
          case (1 t)
          then show ?case by (rule row_append_string_cont_agrees)
        next
          case (2 t)
          from 2(2) show ?case
            by (rule and_then_agrees) (simp_all add: del_row_cont_ok)
        qed
      qed
      then show ?thesis using c0 by simp
    qed
  qed
  then show ?thesis
    unfolding editorDelChar_cont_def by (simp only: if_not_P [OF n1] if_not_P [OF False])
qed
qed

lemma update_all_rows_cont_agrees:
  assumes "update_all_rows js E = Some (Ok E')"
  shows "update_all_rows_cont g js E = Some (Ok E')"
  using assms
proof (induction js arbitrary: E)
  case Nil
  then show ?case by simp
next
  case (Cons j js)
  have "and_then (at_slot (int j) E (\<lambda>p. map_option snd (editorUpdateSyntax p E)))
       (update_all_rows js) = Some (Ok E')" using Cons.prems by simp
  then have "and_then (at_slot (int j) E (\<lambda>p. editorUpdateSyntax_cont g p E))
       (update_all_rows_cont g js) = Some (Ok E')"
  proof (rule and_then_agrees, goal_cases)
    case (1 s)
    then show ?case by (rule at_slot_agrees) (rule update_syntax_snd_agrees)
  next
    case (2 s)
    then show ?case using Cons.IH by simp
  qed
  then show ?case by simp
qed

lemma select_syntax_cont_agrees:
  assumes "editorSelectSyntaxHighlight E = Some (Ok E')"
  shows "editorSelectSyntaxHighlight_cont g E = Some (Ok E')"
  using assms
  unfolding editorSelectSyntaxHighlight_def editorSelectSyntaxHighlight_cont_def
  by (auto split: option.splits simp: update_all_rows_cont_agrees)

lemma append_lines_cont_agrees:
  assumes "append_lines ls E = Some (Ok E')"
  shows "append_lines_cont g ls E = Some (Ok E')"
  using assms
proof (induction ls arbitrary: E)
  case Nil
  then show ?case by simp
next
  case (Cons l ls)
  have "and_then (editorInsertRow (numrows E) (strip_eol l) E) (append_lines ls) = Some (Ok E')"
    using Cons.prems by simp
  then have "and_then (editorInsertRow_cont g (numrows E) (strip_eol l) E)
       (append_lines_cont g ls) = Some (Ok E')"
    by (rule and_then_agrees) (simp_all add: insert_row_cont_agrees Cons.IH)
  then show ?case by simp
qed

lemma open_cont_agrees:
  assumes "editorOpen fname ls E = Some (Ok E')"
  shows "editorOpen_cont g fname ls E = Some (Ok E')"
  using assms unfolding editorOpen_def editorOpen_cont_def
proof (rule and_then_agrees, goal_cases)
  case (1 s)
  then show ?case by (rule select_syntax_cont_agrees)
next
  case (2 s)
  from 2(2) show ?case
    by (rule and_then_agrees) (simp_all add: append_lines_cont_agrees)
qed


end
